theory Spec2Isabelle
  imports
    Complex_Main
    "HOL-Library.Word"
    "HOL-Library.Char_ord"
    "HOL-Library.List_Lexorder"
    "HOL-Library.Product_Lexorder"
    "HOL-Library.Multiset"
begin

section \<open>Errors and arrays\<close>

text \<open>
  The exceptions the pipeline of \<^verbatim>\<open>scanner.py\<close> can raise are values:
  \<open>IndexError\<close> is numpy's error for reading column 0 of an array without columns,
  \<open>Cv2Error\<close> is OpenCV's error (\<^verbatim>\<open>cv2.vconcat\<close> of images of
  different widths), \<open>AttributeError\<close> is raised by \<^verbatim>\<open>Image.fromarray\<close> when it is given
  \<^verbatim>\<open>None\<close>, \<open>OcrError\<close> stands for any failure of the OCR call.
\<close>

datatype py_error = IndexError | Cv2Error | AttributeError | OcrError

text \<open>
  A grayscale image is a 2-dimensional \<^verbatim>\<open>uint8\<close> array: its rows, and its number of
  columns (kept apart from the rows, since an array of shape \<open>(0, w)\<close> has a width).
\<close>

record frame =
  ncols :: nat
  pixel_rows :: "8 word list list"

definition wf_frame :: "frame \<Rightarrow> bool" where
  "wf_frame f \<longleftrightarrow> (\<forall>r \<in> set (pixel_rows f). length r = ncols f)"

text \<open>
  Python's slice \<^verbatim>\<open>xs[lo:hi]\<close> (step 1): a negative bound counts from the end, and
  both bounds are clamped to the length.
\<close>

definition slice_index :: "nat \<Rightarrow> int \<Rightarrow> nat" where
  "slice_index n i = (if i < 0 then nat (max 0 (int n + i)) else min n (nat i))"

definition slice_py :: "'a list \<Rightarrow> int \<Rightarrow> int \<Rightarrow> 'a list" where
  "slice_py xs lo hi =
     (let s = slice_index (length xs) lo; e = slice_index (length xs) hi
      in take (e - s) (drop s xs))"

text \<open>\<^verbatim>\<open>frame[lo:hi, :]\<close>: a band of rows, every column.\<close>

definition crop_rows :: "frame \<Rightarrow> int \<Rightarrow> int \<Rightarrow> frame" where
  "crop_rows f lo hi = f\<lparr>pixel_rows := slice_py (pixel_rows f) lo hi\<rparr>"

text \<open>\<^verbatim>\<open>frame[rlo:rhi, clo:chi]\<close>: a band of rows, and of each row a band of columns.\<close>

definition crop_region :: "frame \<Rightarrow> int \<Rightarrow> int \<Rightarrow> int \<Rightarrow> int \<Rightarrow> frame" where
  "crop_region f rlo rhi clo chi =
     \<lparr>ncols = slice_index (ncols f) chi - slice_index (ncols f) clo,
      pixel_rows = map (\<lambda>r. slice_py r clo chi) (slice_py (pixel_rows f) rlo rhi)\<rparr>"

text \<open>\<^verbatim>\<open>frame[:, 0]\<close>: numpy raises IndexError when the array has no column.\<close>

definition column0 :: "frame \<Rightarrow> py_error + 8 word list" where
  "column0 f = (if ncols f = 0 then Inl IndexError else Inr (map (\<lambda>r. r ! 0) (pixel_rows f)))"

text \<open>\<^verbatim>\<open>mask.nonzero()[0]\<close>: the indices of the true entries, ascending.\<close>

fun nonzero_from :: "int \<Rightarrow> bool list \<Rightarrow> int list" where
  "nonzero_from i [] = []"
| "nonzero_from i (b # bs) = (if b then i # nonzero_from (i + 1) bs else nonzero_from (i + 1) bs)"

definition nonzero :: "bool list \<Rightarrow> int list" where
  "nonzero bs = nonzero_from 0 bs"

section \<open>Row Segmenter: \<^verbatim>\<open>parse_frame\<close>\<close>

text \<open>
  \<^verbatim>\<open>lines = [0] + list((frame[:, 0] < 200).nonzero()[0])\<close>: the line-pixel rows of
  column 0, with 0 in front.
\<close>

definition line_pixels :: "8 word list \<Rightarrow> int list" where
  "line_pixels col = nonzero (map (\<lambda>p. p < 200) col)"

definition boundary_lines :: "8 word list \<Rightarrow> int list" where
  "boundary_lines col = 0 # line_pixels col"

text \<open>
  The loop \<^verbatim>\<open>for y1, y2 in zip(lines, lines[1:])\<close>; the generator's yields are the
  list returned.
\<close>

fun parse_frame_loop :: "frame \<Rightarrow> (int \<times> int) list \<Rightarrow> frame list" where
  "parse_frame_loop f [] = []"
| "parse_frame_loop f ((y1, y2) # ps) =
     (if \<not> (40 < y2 - y1 \<and> y2 - y1 < 60) then parse_frame_loop f ps
      else crop_rows f (y1 + 5) (y2 - 5) # parse_frame_loop f ps)"

definition parse_frame :: "frame \<Rightarrow> py_error + frame list" where
  "parse_frame f =
     (case column0 f of
        Inl e \<Rightarrow> Inl e
      | Inr col \<Rightarrow>
          (let lines = boundary_lines col
           in Inr (parse_frame_loop f (zip lines (slice_py lines 1 (int (length lines)))))))"

text \<open>
  The vocabulary of the specification: the consecutive pairs of boundary indices, and the
  band of accepted gaps.
\<close>

definition boundary_pairs :: "8 word list \<Rightarrow> (int \<times> int) list" where
  "boundary_pairs col = zip (boundary_lines col) (tl (boundary_lines col))"

definition in_band :: "int \<times> int \<Rightarrow> bool" where
  "in_band p \<longleftrightarrow> 40 < snd p - fst p \<and> snd p - fst p < 60"

text \<open>Frames one pixel wide, for the concrete runs below.\<close>

definition band_frame :: frame where
  "band_frame = \<lparr>ncols = 1, pixel_rows = replicate 50 [255] @ [[0]] @ replicate 30 [255] @ [[0]]\<rparr>"

definition band_column :: "8 word list" where
  "band_column = replicate 50 255 @ [0] @ replicate 30 255 @ [0]"

definition one_line_frame :: "nat \<Rightarrow> frame" where
  "one_line_frame k = \<lparr>ncols = 1, pixel_rows = replicate k [255] @ [[0]]\<rparr>"

definition one_line_column :: "nat \<Rightarrow> 8 word list" where
  "one_line_column k = replicate k 255 @ [0]"

subsection \<open>Indices and slices\<close>

lemma nonzero_from_bounds:
  "x \<in> set (nonzero_from i bs) \<Longrightarrow> i \<le> x \<and> x < i + int (length bs)"
  by (induction bs arbitrary: i) (fastforce split: if_splits)+

lemma nonzero_from_sorted: "sorted_wrt (<) (nonzero_from i bs)"
proof (induction bs arbitrary: i)
  case Nil
  show ?case by simp
next
  case (Cons b bs)
  have "\<forall>x \<in> set (nonzero_from (i + 1) bs). i < x"
    using nonzero_from_bounds[of _ "i + 1" bs] by fastforce
  with Cons show ?case by simp
qed

lemma nonzero_from_replicate_False [simp]:
  "nonzero_from i (replicate n False @ bs) = nonzero_from (i + int n) bs"
  by (induction n arbitrary: i) (simp_all add: algebra_simps)

lemma slice_py_tl: "xs \<noteq> [] \<Longrightarrow> slice_py xs 1 (int (length xs)) = tl xs"
  by (cases xs) (simp_all add: slice_py_def slice_index_def)

lemma slice_py_nth:
  assumes "0 \<le> lo" "lo \<le> hi" "nat hi \<le> length xs"
  shows "slice_py xs lo hi = map (\<lambda>k. xs ! k) [nat lo ..< nat hi]"
proof -
  have s: "slice_index (length xs) lo = nat lo" "slice_index (length xs) hi = nat hi"
    using assms by (auto simp: slice_index_def)
  have "take (nat hi - nat lo) (drop (nat lo) xs) = map (\<lambda>k. xs ! k) [nat lo ..< nat hi]"
    using assms by (intro nth_equalityI) auto
  then show ?thesis unfolding slice_py_def Let_def s .
qed

lemma set_slice_py: "set (slice_py xs lo hi) \<subseteq> set xs"
  by (auto simp: slice_py_def Let_def dest!: in_set_takeD in_set_dropD)

lemma length_slice_py:
  "length (slice_py xs lo hi) = slice_index (length xs) hi - slice_index (length xs) lo"
  by (auto simp: slice_py_def slice_index_def Let_def)

lemma wf_frame_crop_rows: "wf_frame f \<Longrightarrow> wf_frame (crop_rows f lo hi)"
  using set_slice_py[of "pixel_rows f" lo hi] by (auto simp: wf_frame_def crop_rows_def)

lemma wf_frame_crop_region: "wf_frame f \<Longrightarrow> wf_frame (crop_region f rlo rhi clo chi)"
  using set_slice_py[of "pixel_rows f" rlo rhi]
  by (auto simp: wf_frame_def crop_region_def length_slice_py)

subsection \<open>The rows of one frame\<close>

lemma parse_frame_loop_filter:
  "parse_frame_loop f ps =
     map (\<lambda>(y1, y2). crop_rows f (y1 + 5) (y2 - 5))
       (filter (\<lambda>(y1, y2). 40 < y2 - y1 \<and> y2 - y1 < 60) ps)"
  by (induction f ps rule: parse_frame_loop.induct) auto

lemma line_pixels_range:
  "y \<in> set (line_pixels col) \<Longrightarrow> 0 \<le> y \<and> nat y < length col"
  unfolding line_pixels_def nonzero_def
  using nonzero_from_bounds[of y 0 "map (\<lambda>p. p < 200) col"] by auto

lemma boundary_pairs_range:
  assumes "(y1, y2) \<in> set (boundary_pairs col)"
  shows "0 \<le> y1 \<and> nat y2 < length col \<and> 0 \<le> y2"
proof -
  from assms have "y1 \<in> set (boundary_lines col)" "y2 \<in> set (line_pixels col)"
    unfolding boundary_pairs_def boundary_lines_def
    by (auto dest: set_zip_leftD set_zip_rightD)
  then show ?thesis using line_pixels_range[of _ col]
    by (auto simp: boundary_lines_def)
qed

lemma column0_length: "column0 f = Inr col \<Longrightarrow> length col = length (pixel_rows f)"
  by (auto simp: column0_def split: if_splits)

lemma parse_frame_pairs:
  assumes "column0 f = Inr col"
  shows "parse_frame f =
           Inr (map (\<lambda>(y1, y2). crop_rows f (y1 + 5) (y2 - 5)) (filter in_band (boundary_pairs col)))"
proof -
  have "boundary_lines col \<noteq> []" by (simp add: boundary_lines_def)
  then have "slice_py (boundary_lines col) 1 (int (length (boundary_lines col))) = tl (boundary_lines col)"
    by (rule slice_py_tl)
  moreover have "(\<lambda>(y1, y2). 40 < y2 - y1 \<and> y2 - y1 < 60) = in_band"
    by (auto simp: in_band_def fun_eq_iff)
  ultimately show ?thesis
    using assms by (simp add: parse_frame_def parse_frame_loop_filter boundary_pairs_def Let_def)
qed

lemma band_frame_column: "column0 band_frame = Inr band_column"
  by (simp add: column0_def band_frame_def band_column_def)

lemma band_column_pairs: "boundary_pairs band_column = [(0, 50), (50, 81)]"
  by (simp add: boundary_pairs_def boundary_lines_def line_pixels_def nonzero_def band_column_def)

lemma one_line_frame_column: "column0 (one_line_frame k) = Inr (one_line_column k)"
  by (simp add: column0_def one_line_frame_def one_line_column_def)

lemma one_line_column_pixels: "line_pixels (one_line_column k) = [int k]"
  by (simp add: line_pixels_def nonzero_def one_line_column_def)

text \<open>
  C5. For a frame with at least one column (so that column 0 can be read), the rows
  yielded are, in order, one for each consecutive pair \<open>(y1, y2)\<close> of boundary indices
  whose gap is strictly between 40 and 60, and none for any other pair; the row of such
  a pair is the frame cropped to the rows \<open>y1 + 5, \<dots>, y2 - 6\<close>, every column kept.
\<close>

theorem parse_frame_band:
  assumes "column0 f = Inr col"
  shows "parse_frame f =
           Inr (map (\<lambda>(y1, y2). crop_rows f (y1 + 5) (y2 - 5)) (filter in_band (boundary_pairs col)))
       \<and> (\<forall>(y1, y2) \<in> set (boundary_pairs col). in_band (y1, y2) \<longrightarrow>
            ncols (crop_rows f (y1 + 5) (y2 - 5)) = ncols f \<and>
            pixel_rows (crop_rows f (y1 + 5) (y2 - 5)) =
              map (\<lambda>k. pixel_rows f ! k) [nat y1 + 5 ..< nat y2 - 5])"
proof (intro conjI ballI)
  show "parse_frame f =
      Inr (map (\<lambda>(y1, y2). crop_rows f (y1 + 5) (y2 - 5)) (filter in_band (boundary_pairs col)))"
    using assms by (rule parse_frame_pairs)
next
  fix p assume p: "p \<in> set (boundary_pairs col)"
  obtain y1 y2 where [simp]: "p = (y1, y2)" by (cases p)
  from p have r: "0 \<le> y1" "nat y2 < length (pixel_rows f)"
    using boundary_pairs_range[of y1 y2 col] column0_length[OF assms] by auto
  show "case p of (y1, y2) \<Rightarrow> in_band (y1, y2) \<longrightarrow>
            ncols (crop_rows f (y1 + 5) (y2 - 5)) = ncols f \<and>
            pixel_rows (crop_rows f (y1 + 5) (y2 - 5)) =
              map (\<lambda>k. pixel_rows f ! k) [nat y1 + 5 ..< nat y2 - 5]"
  proof (clarsimp simp: in_band_def crop_rows_def)
    assume b: "40 < y2 - y1" "y2 - y1 < 60"
    have "slice_py (pixel_rows f) (y1 + 5) (y2 - 5) =
            map (\<lambda>k. pixel_rows f ! k) [nat (y1 + 5) ..< nat (y2 - 5)]"
      using r b by (intro slice_py_nth) auto
    moreover have "nat (y1 + 5) = nat y1 + 5" "nat (y2 - 5) = nat y2 - 5"
      using r b by auto
    ultimately show "slice_py (pixel_rows f) (y1 + 5) (y2 - 5) =
        map ((!) (pixel_rows f)) [nat y1 + 5..<nat y2 - 5]"
      by simp
  qed
qed

theorem parse_frame_band_witness:
  "column0 band_frame = Inr band_column \<and>
   boundary_pairs band_column = [(0, 50), (50, 81)] \<and>
   parse_frame band_frame = Inr [crop_rows band_frame 5 45] \<and>
   length (pixel_rows (crop_rows band_frame 5 45)) = 40"
  using parse_frame_band[OF band_frame_column] band_frame_column band_column_pairs
  by (simp add: in_band_def)

text \<open>
  C6, as the specification states it, fails: a frame whose only line-pixel of column 0
  is at row 50 has the boundary indices \<open>[0, 50]\<close>, and the pair \<open>(0, 50)\<close> is in the
  band, so that one row is yielded.
\<close>

theorem parse_frame_one_line_counterexample:
  "column0 (one_line_frame 50) = Inr (one_line_column 50) \<and>
   length (line_pixels (one_line_column 50)) \<le> 1 \<and>
   parse_frame (one_line_frame 50) = Inr [crop_rows (one_line_frame 50) 5 45] \<and>
   parse_frame (one_line_frame 50) \<noteq> Inr []"
  by (simp add: parse_frame_pairs[OF one_line_frame_column] one_line_frame_column
      one_line_column_pixels boundary_pairs_def boundary_lines_def in_band_def)

text \<open>
  C6, amended. For a frame with at least one column whose column 0 has at most one
  line-pixel: no row is yielded when there is no line-pixel, or when the only line-pixel
  is at a row \<open>k\<close> with \<open>k \<le> 40\<close> or \<open>k \<ge> 60\<close>; when the only line-pixel is at a row
  \<open>40 < k < 60\<close>, exactly one row is yielded, the frame cropped to the rows \<open>[5, k - 5)\<close>.
\<close>

theorem parse_frame_few_lines:
  assumes "column0 f = Inr col" and "length (line_pixels col) \<le> 1"
  shows "parse_frame f =
           (case line_pixels col of
              [k] \<Rightarrow> if 40 < k \<and> k < 60 then Inr [crop_rows f 5 (k - 5)] else Inr []
            | _ \<Rightarrow> Inr [])"
proof (cases "line_pixels col")
  case Nil
  then show ?thesis
    by (simp add: parse_frame_pairs[OF assms(1)] boundary_pairs_def boundary_lines_def)
next
  case (Cons k ks)
  with assms(2) have "ks = []" by simp
  with Cons show ?thesis
    by (simp add: parse_frame_pairs[OF assms(1)] boundary_pairs_def boundary_lines_def in_band_def)
qed

theorem parse_frame_few_lines_witness:
  "column0 (one_line_frame 30) = Inr (one_line_column 30) \<and>
   length (line_pixels (one_line_column 30)) \<le> 1 \<and>
   parse_frame (one_line_frame 30) = Inr []"
  using parse_frame_few_lines[OF one_line_frame_column, of 30]
  by (simp add: one_line_frame_column one_line_column_pixels)

section \<open>Frame Source: \<^verbatim>\<open>read_frames\<close>\<close>

text \<open>
  The decode handle \<^verbatim>\<open>cv2.VideoCapture\<close>: the images still to be decoded and whether
  the handle is open. A file that cannot be opened (\<open>None\<close>) gives a handle that is not
  open, whose \<^verbatim>\<open>read\<close> returns \<^verbatim>\<open>(False, None)\<close>; OpenCV raises nothing there.
  \<^verbatim>\<open>cap.read()\<close> returns \<open>Some img\<close> for \<^verbatim>\<open>(True, img)\<close>.
\<close>

record 'img capture =
  pending :: "'img list"
  is_opened :: bool

definition VideoCapture :: "'img list option \<Rightarrow> 'img capture" where
  "VideoCapture video =
     (case video of
        None \<Rightarrow> \<lparr>pending = [], is_opened = False\<rparr>
      | Some imgs \<Rightarrow> \<lparr>pending = imgs, is_opened = True\<rparr>)"

definition cap_read :: "'img capture \<Rightarrow> 'img option \<times> 'img capture" where
  "cap_read cap =
     (if is_opened cap
      then (case pending cap of
              [] \<Rightarrow> (None, cap)
            | img # imgs \<Rightarrow> (Some img, cap\<lparr>pending := imgs\<rparr>))
      else (None, cap))"

definition cap_release :: "'img capture \<Rightarrow> 'img capture" where
  "cap_release cap = cap\<lparr>is_opened := False\<rparr>"

text \<open>
  The destructor of \<^verbatim>\<open>cv2.VideoCapture\<close>, which runs when the last reference to the
  object goes away: it releases the decoder.
\<close>

definition cap_del :: "'img capture \<Rightarrow> 'img capture" where
  "cap_del cap = cap\<lparr>is_opened := False\<rparr>"

text \<open>
  \<^verbatim>\<open>read_frames\<close> is a generator. Calling it only creates the generator object
  (\<open>Created\<close>); the first \<^verbatim>\<open>next\<close> opens the handle and runs to the first
  \<^verbatim>\<open>yield\<close>, where the generator is \<open>Suspended\<close>. When \<^verbatim>\<open>read\<close> reports the end of
  the video the loop is left, \<^verbatim>\<open>cap.release()\<close> runs and the generator is \<open>Finished\<close>.
  \<^verbatim>\<open>close\<close> (also run by CPython when the last reference to a suspended generator goes
  away) raises GeneratorExit at the \<^verbatim>\<open>yield\<close>. The body has no \<^verbatim>\<open>try/finally\<close>, so
  \<^verbatim>\<open>cap.release()\<close> after the loop does not run; but the frame of the generator ends, its
  local \<^verbatim>\<open>cap\<close>, to which nothing else refers, is destroyed, and the destructor releases
  the decoder. The capture kept in \<open>Finished\<close> is the state the decoder was left in.
  The conversion to grayscale, \<^verbatim>\<open>cv2.cvtColor\<close>, is a parameter.
\<close>

datatype 'img frames_gen =
    Created "'img list option"
  | Suspended "'img capture"
  | Finished "'img capture option"

definition roi :: "frame \<Rightarrow> frame" where
  "roi gray = crop_region gray 150 630 635 1050"

definition read_frames_body :: "('img \<Rightarrow> frame) \<Rightarrow> 'img capture \<Rightarrow> frame option \<times> 'img frames_gen" where
  "read_frames_body cvtColor cap =
     (case cap_read cap of
        (None, cap') \<Rightarrow> (None, Finished (Some (cap_release cap')))
      | (Some img, cap') \<Rightarrow> (Some (roi (cvtColor img)), Suspended cap'))"

definition read_frames :: "'img list option \<Rightarrow> 'img frames_gen" where
  "read_frames video = Created video"

definition gen_next :: "('img \<Rightarrow> frame) \<Rightarrow> 'img frames_gen \<Rightarrow> frame option \<times> 'img frames_gen" where
  "gen_next cvtColor g =
     (case g of
        Created video \<Rightarrow> read_frames_body cvtColor (VideoCapture video)
      | Suspended cap \<Rightarrow> read_frames_body cvtColor cap
      | Finished c \<Rightarrow> (None, Finished c))"

definition gen_close :: "'img frames_gen \<Rightarrow> 'img frames_gen" where
  "gen_close g =
     (case g of
        Created video \<Rightarrow> Finished None
      | Suspended cap \<Rightarrow> Finished (Some (cap_del cap))
      | Finished c \<Rightarrow> Finished c)"



section \<open>Frame Sampler: \<^verbatim>\<open>parse_video\<close>\<close>

text \<open>
  The loop \<^verbatim>\<open>for i, frame in enumerate(read_frames(filename))\<close>, with the generator
  threaded through it. The loop holds the only reference to the generator: when an
  exception of \<^verbatim>\<open>parse_frame\<close> unwinds \<^verbatim>\<open>parse_video\<close>, the generator is discarded and
  thereby closed. The model returns the generator beside the result, so that the state
  of the handle can be read afterwards.
\<close>

definition frames_left :: "'img frames_gen \<Rightarrow> nat" where
  "frames_left g =
     (case g of
        Created video \<Rightarrow> Suc (length (pending (VideoCapture video)))
      | Suspended cap \<Rightarrow> length (pending cap)
      | Finished c \<Rightarrow> 0)"

lemma gen_next_frames_left:
  "gen_next cvtColor g = (Some fr, g') \<Longrightarrow> frames_left g' < frames_left g"
  by (auto simp: gen_next_def read_frames_body_def cap_read_def frames_left_def VideoCapture_def
      split: frames_gen.splits option.splits list.splits if_splits)

function parse_video_loop ::
  "('img \<Rightarrow> frame) \<Rightarrow> nat \<Rightarrow> 'img frames_gen \<Rightarrow> frame list \<Rightarrow> (py_error + frame list) \<times> 'img frames_gen"
where
  "parse_video_loop cvtColor i g all_rows =
     (case gen_next cvtColor g of
        (None, g') \<Rightarrow> (Inr all_rows, g')
      | (Some fr, g') \<Rightarrow>
          (if i mod 3 \<noteq> 0 then parse_video_loop cvtColor (i + 1) g' all_rows
           else (case parse_frame fr of
                   Inl e \<Rightarrow> (Inl e, gen_close g')
                 | Inr rows \<Rightarrow> parse_video_loop cvtColor (i + 1) g' (all_rows @ rows))))"
  by pat_completeness auto
termination
  by (relation "measure (\<lambda>(cvtColor, i, g, all_rows). frames_left g)")
     (auto dest: gen_next_frames_left[OF sym])

declare parse_video_loop.simps [simp del]

definition parse_video ::
  "('img \<Rightarrow> frame) \<Rightarrow> 'img list option \<Rightarrow> (py_error + frame list) \<times> 'img frames_gen" where
  "parse_video cvtColor video = parse_video_loop cvtColor 0 (read_frames video) []"


text \<open>
  The vocabulary of the specification: the frames of a video in decode order, those of
  them whose index is a multiple of 3, and the rows the Row Segmenter yields for a frame.
\<close>

definition roi_frames :: "('img \<Rightarrow> frame) \<Rightarrow> 'img list option \<Rightarrow> frame list" where
  "roi_frames cvtColor video =
     map (\<lambda>img. roi (cvtColor img)) (case video of None \<Rightarrow> [] | Some imgs \<Rightarrow> imgs)"

definition sampled_from :: "nat \<Rightarrow> 'a list \<Rightarrow> 'a list" where
  "sampled_from i xs = map snd (filter (\<lambda>(j, x). j mod 3 = 0) (enumerate i xs))"

definition rows_of :: "frame \<Rightarrow> frame list" where
  "rows_of f = (case parse_frame f of Inl e \<Rightarrow> [] | Inr rows \<Rightarrow> rows)"

lemma sampled_from_Cons:
  "sampled_from i (x # xs) = (if i mod 3 = 0 then x # sampled_from (Suc i) xs else sampled_from (Suc i) xs)"
  by (simp add: sampled_from_def)

lemma parse_frame_cases:
  "parse_frame f = (if ncols f = 0 then Inl IndexError else Inr (rows_of f))"
  by (simp add: rows_of_def parse_frame_def column0_def Let_def)


lemma parse_video_loop_suspended:
  assumes "is_opened cap"
  shows "fst (parse_video_loop cvtColor i (Suspended cap) acc) =
     (if \<forall>f \<in> set (sampled_from i (map (\<lambda>img. roi (cvtColor img)) (pending cap))). ncols f \<noteq> 0
      then Inr (acc @ concat (map rows_of (sampled_from i (map (\<lambda>img. roi (cvtColor img)) (pending cap)))))
      else Inl IndexError)"
  using assms
proof (induction "pending cap" arbitrary: cap i acc)
  case Nil
  then show ?case
    by (subst parse_video_loop.simps)
       (simp add: gen_next_def read_frames_body_def cap_read_def sampled_from_def)
next
  case (Cons img imgs)
  let ?cap' = "cap\<lparr>pending := imgs\<rparr>"
  have nxt: "gen_next cvtColor (Suspended cap) = (Some (roi (cvtColor img)), Suspended ?cap')"
    using Cons.hyps(2)[symmetric] Cons.prems
    by (simp add: gen_next_def read_frames_body_def cap_read_def)
  have IH: "fst (parse_video_loop cvtColor (Suc i) (Suspended ?cap') acc') =
     (if \<forall>f \<in> set (sampled_from (Suc i) (map (\<lambda>img. roi (cvtColor img)) imgs)). ncols f \<noteq> 0
      then Inr (acc' @ concat (map rows_of (sampled_from (Suc i) (map (\<lambda>img. roi (cvtColor img)) imgs))))
      else Inl IndexError)" for acc'
    using Cons.hyps(1)[of ?cap' "Suc i" acc'] Cons.prems by simp
  show ?case
    by (subst parse_video_loop.simps)
       (auto simp: nxt IH Cons.hyps(2)[symmetric] sampled_from_Cons parse_frame_cases)
qed









definition sampled :: "'a list \<Rightarrow> 'a list" where
  "sampled xs = sampled_from 0 xs"

text \<open>Concrete videos: their images are grayscale already, so the conversion changes nothing.\<close>

definition gray_input :: "frame \<Rightarrow> frame" where
  "gray_input img = img"

definition wide_image :: frame where
  "wide_image = \<lparr>ncols = 636, pixel_rows = replicate 200 (replicate 636 255) @ [replicate 636 0]\<rparr>"

definition narrow_image :: frame where
  "narrow_image = \<lparr>ncols = 480, pixel_rows = replicate 360 (replicate 480 0)\<rparr>"

lemma gray_input_id [simp]: "gray_input img = img"
  by (simp add: gray_input_def)

lemma parse_video_loop_created:
  "parse_video_loop cvtColor i (Created video) acc =
   parse_video_loop cvtColor i (Suspended (VideoCapture video)) acc"
  by (subst parse_video_loop.simps, subst (2) parse_video_loop.simps) (simp add: gen_next_def)

lemma parse_video_loop_unopened:
  "\<not> is_opened cap \<Longrightarrow>
   parse_video_loop cvtColor i (Suspended cap) acc = (Inr acc, Finished (Some (cap_release cap)))"
  by (subst parse_video_loop.simps) (simp add: gen_next_def read_frames_body_def cap_read_def)

text \<open>
  C8. The rows accumulated by \<^verbatim>\<open>parse_video\<close> are the concatenation, in decode order, of
  the rows of \<^verbatim>\<open>parse_frame\<close> for exactly the frames whose 0-based index is a multiple of
  3. (When one of those frames has no column, \<^verbatim>\<open>parse_frame\<close> raises IndexError and so
  does \<^verbatim>\<open>parse_video\<close>; the other frames are never looked at.)
\<close>

theorem parse_video_sampled:
  "fst (parse_video cvtColor video) =
     (if \<forall>f \<in> set (sampled (roi_frames cvtColor video)). ncols f \<noteq> 0
      then Inr (concat (map rows_of (sampled (roi_frames cvtColor video))))
      else Inl IndexError)"
proof (cases video)
  case None
  then show ?thesis
    by (simp add: parse_video_def read_frames_def parse_video_loop_created
        parse_video_loop_unopened VideoCapture_def roi_frames_def sampled_def sampled_from_def)
next
  case (Some imgs)
  have "is_opened (VideoCapture (Some imgs))" by (simp add: VideoCapture_def)
  from parse_video_loop_suspended[OF this, of cvtColor 0 "[]"] Some show ?thesis
    by (simp add: parse_video_def read_frames_def parse_video_loop_created
        VideoCapture_def roi_frames_def sampled_def)
qed

lemma roi_wide_image: "roi wide_image = one_line_frame 50"
  by (simp add: roi_def wide_image_def crop_region_def slice_py_def slice_index_def one_line_frame_def)

lemma roi_narrow_image: "roi narrow_image = \<lparr>ncols = 0, pixel_rows = replicate 210 []\<rparr>"
  by (simp add: roi_def narrow_image_def crop_region_def slice_py_def slice_index_def)

lemma rows_of_one_line_50: "rows_of (one_line_frame 50) = [crop_rows (one_line_frame 50) 5 45]"
  by (simp add: rows_of_def parse_frame_pairs[OF one_line_frame_column]
      one_line_column_pixels boundary_pairs_def boundary_lines_def in_band_def)

lemma ncols_one_line_frame: "ncols (one_line_frame k) = 1"
  by (simp add: one_line_frame_def)

theorem parse_video_sampled_witness:
  "sampled (roi_frames gray_input (Some [wide_image, narrow_image, narrow_image, wide_image, narrow_image]))
     = [one_line_frame 50, one_line_frame 50] \<and>
   fst (parse_video gray_input (Some [wide_image, narrow_image, narrow_image, wide_image, narrow_image]))
     = Inr [crop_rows (one_line_frame 50) 5 45, crop_rows (one_line_frame 50) 5 45]"
  using parse_video_sampled[of gray_input "Some [wide_image, narrow_image, narrow_image, wide_image, narrow_image]"]
  by (simp add: roi_frames_def sampled_def sampled_from_def roi_wide_image roi_narrow_image
      rows_of_one_line_50 ncols_one_line_frame)

lemma parse_video_one_wide:
  "parse_video gray_input (Some [wide_image]) =
     (Inr [crop_rows (one_line_frame 50) 5 45], Finished (Some \<lparr>pending = [], is_opened = False\<rparr>))"
  unfolding parse_video_def read_frames_def
  apply (subst parse_video_loop.simps)
  apply (simp add: gen_next_def read_frames_body_def cap_read_def VideoCapture_def roi_wide_image
      parse_frame_cases rows_of_one_line_50)
  apply (subst parse_video_loop.simps)
  apply (simp add: gen_next_def read_frames_body_def cap_read_def cap_release_def one_line_frame_def)
  done






section \<open>Text Extractor: \<^verbatim>\<open>run_tesseract\<close>\<close>

text \<open>
  Strings are lists of characters with the code points 0 to 255. On these Python's
  \<^verbatim>\<open>str.strip()\<close> removes the characters of \<^verbatim>\<open>str.isspace\<close> (9 to 13, 28 to 32, 133 and
  160) from both ends, and \<^verbatim>\<open>str.lower()\<close> maps each character on its own (A to Z, and
  192 to 222 without 215, move up by 32).
\<close>

definition isspace :: "char \<Rightarrow> bool" where
  "isspace c \<longleftrightarrow>
     (let n = (of_char c :: nat)
      in (9 \<le> n \<and> n \<le> 13) \<or> (28 \<le> n \<and> n \<le> 32) \<or> n = 133 \<or> n = 160)"

definition strip :: "string \<Rightarrow> string" where
  "strip s = rev (dropWhile isspace (rev (dropWhile isspace s)))"

definition lower_char :: "char \<Rightarrow> char" where
  "lower_char c =
     (let n = (of_char c :: nat)
      in if (65 \<le> n \<and> n \<le> 90) \<or> (192 \<le> n \<and> n \<le> 222 \<and> n \<noteq> 215)
         then char_of (n + 32) else c)"

definition lower :: "string \<Rightarrow> string" where
  "lower s = map lower_char s"

text \<open>\<^verbatim>\<open>s.split(sep)\<close> for a separator of one character; the result is never empty.\<close>

fun split_py :: "'a \<Rightarrow> 'a list \<Rightarrow> 'a list list" where
  "split_py sep [] = [[]]"
| "split_py sep (c # cs) =
     (if c = sep then [] # split_py sep cs
      else (case split_py sep cs of [] \<Rightarrow> [[c]] | l # ls \<Rightarrow> (c # l) # ls))"

text \<open>
  \<^verbatim>\<open>cv2.vconcat\<close> stacks images of one width. For an empty list it returns \<^verbatim>\<open>None\<close>,
  for images of different widths OpenCV raises an error. \<^verbatim>\<open>Image.fromarray\<close> raises
  AttributeError for \<^verbatim>\<open>None\<close>.
\<close>

definition vconcat :: "frame list \<Rightarrow> py_error + frame option" where
  "vconcat fs =
     (case fs of
        [] \<Rightarrow> Inr None
      | f # rest \<Rightarrow>
          if \<forall>g \<in> set rest. ncols g = ncols f
          then Inr (Some \<lparr>ncols = ncols f, pixel_rows = concat (map pixel_rows fs)\<rparr>)
          else Inl Cv2Error)"

definition fromarray :: "frame option \<Rightarrow> py_error + frame" where
  "fromarray obj = (case obj of None \<Rightarrow> Inl AttributeError | Some img \<Rightarrow> Inr img)"

text \<open>
  The set comprehension
  \<^verbatim>\<open>{t.strip().lower() for t in parsed_text.split('\n') if t}\<close>:
  the filter \<^verbatim>\<open>if t\<close> tests the line as it was split, before \<^verbatim>\<open>strip\<close>.
\<close>

definition cleanup_text :: "string \<Rightarrow> string set" where
  "cleanup_text parsed_text =
     set (map (\<lambda>t. lower (strip t)) (filter (\<lambda>t. t \<noteq> []) (split_py CHR ''\<newline>'' parsed_text)))"

text \<open>The OCR engine, \<^verbatim>\<open>pytesseract.image_to_string\<close>, is a parameter.\<close>

definition run_tesseract :: "(frame \<Rightarrow> py_error + string) \<Rightarrow> frame list \<Rightarrow> py_error + string set" where
  "run_tesseract image_to_string item_rows =
     (case vconcat item_rows of
        Inl e \<Rightarrow> Inl e
      | Inr concat_rows \<Rightarrow>
          (case fromarray concat_rows of
             Inl e \<Rightarrow> Inl e
           | Inr pil_image \<Rightarrow>
               (case image_to_string pil_image of
                  Inl e \<Rightarrow> Inl e
                | Inr parsed_text \<Rightarrow> Inr (cleanup_text parsed_text))))"

text \<open>An OCR result with a line of one space.\<close>

definition blank_line_ocr :: "frame \<Rightarrow> py_error + string" where
  "blank_line_ocr img = Inr ''Iron Sword\<newline> \<newline>Cracked Shield\<newline>''"

lemma split_py_nonempty: "split_py sep s \<noteq> []"
  by (induction s) (auto split: list.splits)

lemma cleanup_text_blank_line:
  assumes "t \<in> set (split_py CHR ''\<newline>'' parsed_text)" and "t \<noteq> []" and "\<forall>c \<in> set t. isspace c"
  shows "[] \<in> cleanup_text parsed_text"
proof -
  from assms(3) have d: "dropWhile isspace t = []" by simp
  have "lower (strip t) = []" unfolding strip_def lower_def d by simp
  moreover from assms(1,2) have "t \<in> set (filter (\<lambda>t. t \<noteq> []) (split_py CHR ''\<newline>'' parsed_text))"
    by simp
  ultimately show ?thesis
    unfolding cleanup_text_def set_map by (intro image_eqI[where x = t]) simp_all
qed

text \<open>
  C7 is not what the code does: the emptiness test comes before the trimming. For the
  text \<^verbatim>\<open>"Iron Sword\n \nCracked Shield\n"\<close> the line of one space passes the test, is
  trimmed to the empty string and that string is a member of the returned set; the same
  happens with the form feed that Tesseract puts at the end of its output.
\<close>

theorem run_tesseract_keeps_blank_line:
  "run_tesseract blank_line_ocr [one_line_frame 50]
     = Inr {''iron sword'', '''', ''cracked shield''} \<and>
   cleanup_text (''Iron Sword\<newline>'' @ [CHR 0x0C]) = {''iron sword'', ''''}"
  by code_simp

section \<open>The closest-match step: \<^verbatim>\<open>difflib\<close>\<close>

text \<open>
  \<^verbatim>\<open>match_items\<close> calls \<^verbatim>\<open>difflib.get_close_matches(item, item_db, n=1, cutoff=0.8)\<close>.
  The functions below follow the library (CPython 3.11, \<^verbatim>\<open>Lib/difflib.py\<close> and
  \<^verbatim>\<open>Lib/heapq.py\<close>) for a \<^verbatim>\<open>SequenceMatcher\<close> without junk function and with the
  default \<^verbatim>\<open>autojunk=True\<close>, which is how \<^verbatim>\<open>get_close_matches\<close> creates it. Indices are
  Python integers (\<open>int\<close>), dictionaries are maps.

  The library computes a ratio as the float \<^verbatim>\<open>2.0 * matches / length\<close> and compares it
  with the float \<^verbatim>\<open>0.8\<close>. Here ratios are rational numbers and the cutoff is \<open>4/5\<close>.
  Float division is correctly rounded and monotone, and \<^verbatim>\<open>0.8\<close> is the float nearest to
  \<open>4/5\<close>, so that the comparisons of the library and of the model agree for all strings
  whose lengths add up to less than \<open>2^25\<close>.
\<close>

subsection \<open>\<^verbatim>\<open>SequenceMatcher.__chain_b\<close>\<close>

text \<open>
  \<open>b2j\<close> maps an element of \<open>b\<close> to the ascending list of its positions. For
  \<open>len(b) \<ge> 200\<close> the elements that occur more than \<open>len(b) // 100 + 1\<close> times
  ("popular") are removed from the map.
\<close>

fun chain_b_loop :: "int \<Rightarrow> 'a list \<Rightarrow> ('a \<rightharpoonup> int list) \<Rightarrow> ('a \<rightharpoonup> int list)" where
  "chain_b_loop i [] b2j = b2j"
| "chain_b_loop i (elt # rest) b2j =
     chain_b_loop (i + 1) rest (b2j(elt \<mapsto> (case b2j elt of None \<Rightarrow> [] | Some indices \<Rightarrow> indices) @ [i]))"

definition chain_b :: "'a list \<Rightarrow> ('a \<rightharpoonup> int list)" where
  "chain_b b =
     (let b2j = chain_b_loop 0 b Map.empty; n = length b
      in if n \<ge> 200
         then (let ntest = n div 100 + 1
               in (\<lambda>elt. case b2j elt of
                            None \<Rightarrow> None
                          | Some idxs \<Rightarrow> if length idxs > ntest then None else Some idxs))
         else b2j)"

subsection \<open>\<^verbatim>\<open>SequenceMatcher.find_longest_match\<close>\<close>

text \<open>
  A match \<^verbatim>\<open>Match(a, b, size)\<close> is a triple. \<open>flm_inner\<close> is the loop over the positions
  \<open>j\<close> of \<open>a[i]\<close> in \<open>b\<close> (with its \<^verbatim>\<open>continue\<close> and \<^verbatim>\<open>break\<close>), \<open>flm_outer\<close> the
  loop over \<open>i\<close> in \<^verbatim>\<open>range(alo, ahi)\<close>; \<open>extend_left\<close> and \<open>extend_right\<close> are the
  \<^verbatim>\<open>while\<close> loops that grow the best match, run first for the elements that are not junk
  and then for those that are (the set \<open>bjunk\<close> is empty here).
\<close>

type_synonym match = "int \<times> int \<times> int"

fun flm_inner ::
  "(int \<rightharpoonup> int) \<Rightarrow> int \<Rightarrow> int \<Rightarrow> int \<Rightarrow> int list \<Rightarrow> (int \<rightharpoonup> int) \<times> match \<Rightarrow> (int \<rightharpoonup> int) \<times> match"
where
  "flm_inner j2len i blo bhi [] st = st"
| "flm_inner j2len i blo bhi (j # js) (newj2len, besti, bestj, bestsize) =
     (if j < blo then flm_inner j2len i blo bhi js (newj2len, besti, bestj, bestsize)
      else if j \<ge> bhi then (newj2len, besti, bestj, bestsize)
      else (let k = (case j2len (j - 1) of None \<Rightarrow> 0 | Some v \<Rightarrow> v) + 1
            in if k > bestsize
               then flm_inner j2len i blo bhi js (newj2len(j \<mapsto> k), i - k + 1, j - k + 1, k)
               else flm_inner j2len i blo bhi js (newj2len(j \<mapsto> k), besti, bestj, bestsize)))"

fun flm_outer ::
  "'a list \<Rightarrow> ('a \<rightharpoonup> int list) \<Rightarrow> int \<Rightarrow> int \<Rightarrow> int list \<Rightarrow> (int \<rightharpoonup> int) \<times> match \<Rightarrow> (int \<rightharpoonup> int) \<times> match"
where
  "flm_outer a b2j blo bhi [] st = st"
| "flm_outer a b2j blo bhi (i # is) (j2len, best) =
     flm_outer a b2j blo bhi is
       (flm_inner j2len i blo bhi (case b2j (a ! nat i) of None \<Rightarrow> [] | Some js \<Rightarrow> js) (Map.empty, best))"

function extend_left :: "('a \<Rightarrow> bool) \<Rightarrow> 'a list \<Rightarrow> 'a list \<Rightarrow> int \<Rightarrow> int \<Rightarrow> match \<Rightarrow> match" where
  "extend_left ok a b alo blo (besti, bestj, bestsize) =
     (if besti > alo \<and> bestj > blo \<and> ok (b ! nat (bestj - 1)) \<and> a ! nat (besti - 1) = b ! nat (bestj - 1)
      then extend_left ok a b alo blo (besti - 1, bestj - 1, bestsize + 1)
      else (besti, bestj, bestsize))"
  by pat_completeness auto
termination
  by (relation "measure (\<lambda>(ok, a, b, alo, blo, besti, bestj, bestsize). nat (besti - alo))") auto

function extend_right :: "('a \<Rightarrow> bool) \<Rightarrow> 'a list \<Rightarrow> 'a list \<Rightarrow> int \<Rightarrow> int \<Rightarrow> match \<Rightarrow> match" where
  "extend_right ok a b ahi bhi (besti, bestj, bestsize) =
     (if besti + bestsize < ahi \<and> bestj + bestsize < bhi \<and> ok (b ! nat (bestj + bestsize)) \<and>
         a ! nat (besti + bestsize) = b ! nat (bestj + bestsize)
      then extend_right ok a b ahi bhi (besti, bestj, bestsize + 1)
      else (besti, bestj, bestsize))"
  by pat_completeness auto
termination
  by (relation "measure (\<lambda>(ok, a, b, ahi, bhi, besti, bestj, bestsize). nat (ahi - (besti + bestsize)))") auto

declare extend_left.simps [simp del] extend_right.simps [simp del]

definition find_longest_match :: "'a list \<Rightarrow> 'a list \<Rightarrow> int \<Rightarrow> int \<Rightarrow> int \<Rightarrow> int \<Rightarrow> match" where
  "find_longest_match a b alo ahi blo bhi =
     (let b2j = chain_b b;
          isbjunk = (\<lambda>x. x \<in> {});
          best = snd (flm_outer a b2j blo bhi [alo ..ahi - 1] (Map.empty, (alo, blo, 0)));
          best = extend_left (\<lambda>x. \<not> isbjunk x) a b alo blo best;
          best = extend_right (\<lambda>x. \<not> isbjunk x) a b ahi bhi best;
          best = extend_left isbjunk a b alo blo best;
          best = extend_right isbjunk a b ahi bhi best
      in best)"

subsection \<open>What \<^verbatim>\<open>find_longest_match\<close> returns\<close>

text \<open>
  The triple returned lies in the region searched and names equal elements of \<open>a\<close> and
  \<open>b\<close>. The invariants of the loops hold for all integers, so that they also serve for
  the termination proof of \<^verbatim>\<open>get_matching_blocks\<close>.
\<close>

definition b2j_sound :: "'a list \<Rightarrow> ('a \<rightharpoonup> int list) \<Rightarrow> bool" where
  "b2j_sound b b2j \<longleftrightarrow>
     (\<forall>x js j. b2j x = Some js \<longrightarrow> j \<in> set js \<longrightarrow> 0 \<le> j \<and> nat j < length b \<and> b ! nat j = x)"

lemma chain_b_loop_sound:
  assumes "b2j_sound b m" "0 \<le> i" "drop (nat i) b = rest"
  shows "b2j_sound b (chain_b_loop i rest m)"
  using assms
proof (induction rest arbitrary: i m)
  case Nil
  then show ?case by simp
next
  case (Cons elt rest)
  from Cons.prems(3) have len: "nat i < length b"
    by (cases "nat i < length b") auto
  from Cons.prems(3) have elt: "b ! nat i = elt"
    using len by (metis nth_via_drop)
  from Cons.prems(3) have "drop (Suc (nat i)) b = rest"
    by (metis drop_Suc list.sel(3) tl_drop)
  then have rest: "drop (nat (i + 1)) b = rest"
    using Cons.prems(2) by (simp add: nat_add_distrib)
  have "b2j_sound b (m(elt \<mapsto> (case m elt of None \<Rightarrow> [] | Some indices \<Rightarrow> indices) @ [i]))"
    unfolding b2j_sound_def
  proof (intro allI impI)
    fix x js j
    assume js: "(m(elt \<mapsto> (case m elt of None \<Rightarrow> [] | Some indices \<Rightarrow> indices) @ [i])) x = Some js"
      and j: "j \<in> set js"
    show "0 \<le> j \<and> nat j < length b \<and> b ! nat j = x"
    proof (cases "x = elt")
      case False
      with js j Cons.prems(1) show ?thesis by (simp add: b2j_sound_def)
    next
      case True
      show ?thesis
      proof (cases "m elt")
        case None
        with True js j Cons.prems(2) len elt show ?thesis by auto
      next
        case (Some old)
        with True js j have "j \<in> set old \<or> j = i" by auto
        with Some Cons.prems(1,2) len elt True show ?thesis
          by (auto simp: b2j_sound_def)
      qed
    qed
  qed
  then have "b2j_sound b (chain_b_loop (i + 1) rest
      (m(elt \<mapsto> (case m elt of None \<Rightarrow> [] | Some indices \<Rightarrow> indices) @ [i])))"
    using Cons.prems(2) rest
      Cons.IH[of "m(elt \<mapsto> (case m elt of None \<Rightarrow> [] | Some indices \<Rightarrow> indices) @ [i])" "i + 1"]
    by (simp del: fun_upd_apply)
  then show ?case by (simp del: fun_upd_apply)
qed

lemma chain_b_sound: "b2j_sound b (chain_b b)"
proof -
  have "b2j_sound b (chain_b_loop 0 b Map.empty)"
    by (rule chain_b_loop_sound) (simp_all add: b2j_sound_def)
  then show ?thesis
    by (auto simp: chain_b_def Let_def b2j_sound_def split: option.splits if_splits)
qed

definition j2len_ok ::
  "'a list \<Rightarrow> 'a list \<Rightarrow> int \<Rightarrow> int \<Rightarrow> int \<Rightarrow> int \<Rightarrow> (int \<rightharpoonup> int) \<Rightarrow> bool" where
  "j2len_ok a b alo blo bhi i j2len \<longleftrightarrow>
     (\<forall>j v. j2len j = Some v \<longrightarrow>
        1 \<le> v \<and> v \<le> i - alo + 1 \<and> v \<le> j - blo + 1 \<and> j < bhi \<and>
        (\<forall>t. 0 \<le> t \<and> t < v \<longrightarrow> a ! nat (i - t) = b ! nat (j - t)))"

definition best_ok :: "'a list \<Rightarrow> 'a list \<Rightarrow> int \<Rightarrow> int \<Rightarrow> int \<Rightarrow> int \<Rightarrow> match \<Rightarrow> bool" where
  "best_ok a b alo ahi blo bhi best \<longleftrightarrow>
     (case best of (besti, bestj, bestsize) \<Rightarrow>
        0 \<le> bestsize \<and> alo \<le> besti \<and> blo \<le> bestj \<and>
        (bestsize = 0 \<longrightarrow> besti = alo \<and> bestj = blo) \<and>
        (0 < bestsize \<longrightarrow> besti + bestsize \<le> ahi \<and> bestj + bestsize \<le> bhi) \<and>
        (\<forall>t. 0 \<le> t \<and> t < bestsize \<longrightarrow> a ! nat (besti + t) = b ! nat (bestj + t)))"

lemma j2len_okD:
  assumes "j2len_ok a b alo blo bhi i j2len" "j2len j = Some v"
  shows "1 \<le> v" "v \<le> i - alo + 1" "v \<le> j - blo + 1" "j < bhi"
    "\<And>t. 0 \<le> t \<Longrightarrow> t < v \<Longrightarrow> a ! nat (i - t) = b ! nat (j - t)"
  using assms unfolding j2len_ok_def by blast+

lemma flm_inner_inv:
  assumes prev: "j2len_ok a b alo blo bhi (i - 1) j2len"
    and js: "\<forall>j \<in> set js. b ! nat j = a ! nat i"
    and i: "alo \<le> i" "i < ahi"
    and new: "j2len_ok a b alo blo bhi i newj2len"
    and best: "best_ok a b alo ahi blo bhi best"
  shows "j2len_ok a b alo blo bhi i (fst (flm_inner j2len i blo bhi js (newj2len, best))) \<and>
         best_ok a b alo ahi blo bhi (snd (flm_inner j2len i blo bhi js (newj2len, best)))"
  using js new best
proof (induction js arbitrary: newj2len best)
  case Nil
  then show ?case by simp
next
  case (Cons j js)
  obtain besti bestj bestsize where b: "best = (besti, bestj, bestsize)" by (cases best)
  show ?case
  proof (cases "j < blo \<or> bhi \<le> j")
    case True
    then show ?thesis using Cons b by auto
  next
    case False
    define k where "k = (case j2len (j - 1) of None \<Rightarrow> 0 | Some v \<Rightarrow> v) + 1"
    have k1: "1 \<le> k" "k \<le> i - alo + 1" "k \<le> j - blo + 1"
    proof (atomize (full), cases "j2len (j - 1)")
      case None
      then show "1 \<le> k \<and> k \<le> i - alo + 1 \<and> k \<le> j - blo + 1"
        using False i by (simp add: k_def)
    next
      case (Some v)
      from j2len_okD(1-3)[OF prev Some] Some
      show "1 \<le> k \<and> k \<le> i - alo + 1 \<and> k \<le> j - blo + 1"
        by (simp add: k_def)
    qed
    have km: "a ! nat (i - t) = b ! nat (j - t)" if "0 \<le> t" "t < k" for t
    proof (cases "t = 0")
      case True
      then show ?thesis using Cons.prems(1) by simp
    next
      case False
      with that obtain v where v: "j2len (j - 1) = Some v" "t - 1 < v"
        by (auto simp: k_def split: option.splits)
      from j2len_okD(5)[OF prev v(1), of "t - 1"] v(2) that False
      have "a ! nat (i - 1 - (t - 1)) = b ! nat (j - 1 - (t - 1))"
        by simp
      then show ?thesis by (simp add: algebra_simps)
    qed
    have new': "j2len_ok a b alo blo bhi i (newj2len(j \<mapsto> k))"
      using Cons.prems(2) k1 km False by (auto simp: j2len_ok_def)
    have "a ! nat (i - k + 1 + t) = b ! nat (j - k + 1 + t)" if "0 \<le> t \<and> t < k" for t
    proof -
      from that have "a ! nat (i - (k - 1 - t)) = b ! nat (j - (k - 1 - t))"
        by (intro km) auto
      then show ?thesis by (simp add: algebra_simps)
    qed
    then have best': "best_ok a b alo ahi blo bhi (i - k + 1, j - k + 1, k)"
      using k1 i False by (simp add: best_ok_def)
    from Cons.prems(1) have js': "\<forall>j \<in> set js. b ! nat j = a ! nat i" by simp
    show ?thesis
    proof (cases "k > bestsize")
      case gt: True
      with False b show ?thesis
        using Cons.IH[OF js' new' best'] by (simp add: k_def Let_def fun_upd_def)
    next
      case ngt: False
      with False b show ?thesis
        using Cons.IH[OF js' new' Cons.prems(3)] by (simp add: k_def Let_def fun_upd_def)
    qed
  qed
qed

lemma j2len_ok_empty: "j2len_ok a b alo blo bhi i Map.empty"
  by (simp add: j2len_ok_def)

lemma flm_outer_inv:
  assumes "b2j_sound b b2j"
    and "j2len_ok a b alo blo bhi (i0 - 1) j2len"
    and "best_ok a b alo ahi blo bhi best"
    and "alo \<le> i0"
  shows "best_ok a b alo ahi blo bhi (snd (flm_outer a b2j blo bhi [i0 ..ahi - 1] (j2len, best)))"
  using assms(2-4)
proof (induction "nat (ahi - i0)" arbitrary: i0 j2len best)
  case 0
  then have "[i0 ..ahi - 1] = []" by simp
  with 0 show ?case by simp
next
  case (Suc n)
  then have lt: "i0 < ahi" by simp
  then have up: "[i0 ..ahi - 1] = i0 # [i0 + 1 ..ahi - 1]" by (simp add: upto_rec1)
  define js where "js = (case b2j (a ! nat i0) of None \<Rightarrow> [] | Some js \<Rightarrow> js)"
  have js: "\<forall>j \<in> set js. b ! nat j = a ! nat i0"
  proof
    fix j assume "j \<in> set js"
    then obtain l where "b2j (a ! nat i0) = Some l" "j \<in> set l"
      by (cases "b2j (a ! nat i0)") (auto simp: js_def)
    with assms(1) show "b ! nat j = a ! nat i0"
      unfolding b2j_sound_def by blast
  qed
  obtain m' best' where r: "flm_inner j2len i0 blo bhi js (Map.empty, best) = (m', best')"
    by (cases "flm_inner j2len i0 blo bhi js (Map.empty, best)")
  from flm_inner_inv[OF Suc.prems(1) js Suc.prems(3) lt j2len_ok_empty Suc.prems(2)] r
  have inv: "j2len_ok a b alo blo bhi i0 m'" "best_ok a b alo ahi blo bhi best'" by simp_all
  have "best_ok a b alo ahi blo bhi (snd (flm_outer a b2j blo bhi [i0 + 1 ..ahi - 1] (m', best')))"
    using Suc.hyps(2) inv Suc.prems(3) by (intro Suc.hyps(1)) auto
  then show ?case by (simp add: up r js_def[symmetric])
qed

lemma extend_left_inv:
  "best_ok a b alo ahi blo bhi best \<Longrightarrow> best_ok a b alo ahi blo bhi (extend_left ok a b alo blo best)"
proof (induction ok a b alo blo best rule: extend_left.induct)
  case (1 ok a b alo blo besti bestj bestsize)
  show ?case
  proof (cases "besti > alo \<and> bestj > blo \<and> ok (b ! nat (bestj - 1)) \<and> a ! nat (besti - 1) = b ! nat (bestj - 1)")
    case False
    with "1.prems" show ?thesis by (subst extend_left.simps) auto
  next
    case True
    have "a ! nat (besti - 1 + t) = b ! nat (bestj - 1 + t)" if t: "0 \<le> t \<and> t < bestsize + 1" for t
    proof (cases "t = 0")
      case t0: True
      with True show ?thesis by simp
    next
      case False
      with t "1.prems" have "a ! nat (besti + (t - 1)) = b ! nat (bestj + (t - 1))"
        by (auto simp: best_ok_def)
      then show ?thesis by (simp add: algebra_simps)
    qed
    moreover have "0 < bestsize"
      using "1.prems" True by (cases "bestsize = 0") (auto simp: best_ok_def)
    ultimately have "best_ok a b alo ahi blo bhi (besti - 1, bestj - 1, bestsize + 1)"
      using "1.prems" True by (simp add: best_ok_def)
    from "1.IH"[OF True this] True show ?thesis by (subst extend_left.simps) simp
  qed
qed

lemma extend_right_inv:
  "best_ok a b alo ahi blo bhi best \<Longrightarrow> best_ok a b alo ahi blo bhi (extend_right ok a b ahi bhi best)"
proof (induction ok a b ahi bhi best rule: extend_right.induct)
  case (1 ok a b ahi bhi besti bestj bestsize)
  show ?case
  proof (cases "besti + bestsize < ahi \<and> bestj + bestsize < bhi \<and> ok (b ! nat (bestj + bestsize)) \<and>
         a ! nat (besti + bestsize) = b ! nat (bestj + bestsize)")
    case False
    with "1.prems" show ?thesis by (subst extend_right.simps) auto
  next
    case True
    have "a ! nat (besti + t) = b ! nat (bestj + t)" if t: "0 \<le> t \<and> t < bestsize + 1" for t
    proof (cases "t = bestsize")
      case tb: True
      with True show ?thesis by simp
    next
      case False
      with t "1.prems" show ?thesis by (auto simp: best_ok_def)
    qed
    then have "best_ok a b alo ahi blo bhi (besti, bestj, bestsize + 1)"
      using "1.prems" True by (simp add: best_ok_def)
    from "1.IH"[OF True this] True show ?thesis by (subst extend_right.simps) simp
  qed
qed

lemma find_longest_match_ok:
  "best_ok a b alo ahi blo bhi (find_longest_match a b alo ahi blo bhi)"
proof -
  have "best_ok a b alo ahi blo bhi (alo, blo, 0)" by (auto simp: best_ok_def)
  then have "best_ok a b alo ahi blo bhi
      (snd (flm_outer a (chain_b b) blo bhi [alo ..ahi - 1] (Map.empty, (alo, blo, 0))))"
    by (intro flm_outer_inv[OF chain_b_sound j2len_ok_empty]) auto
  then show ?thesis
    unfolding find_longest_match_def Let_def
    by (intro extend_right_inv extend_left_inv)
qed

lemma find_longest_match_bounds:
  assumes "find_longest_match a b alo ahi blo bhi = (i, j, k)"
  shows "0 \<le> k" "alo \<le> i" "blo \<le> j" "k \<noteq> 0 \<Longrightarrow> i + k \<le> ahi \<and> j + k \<le> bhi"
    "\<And>t. 0 \<le> t \<Longrightarrow> t < k \<Longrightarrow> a ! nat (i + t) = b ! nat (j + t)"
  using find_longest_match_ok[of a b alo ahi blo bhi] assms
  by (auto simp: best_ok_def)

subsection \<open>\<^verbatim>\<open>SequenceMatcher.get_matching_blocks\<close> and \<^verbatim>\<open>ratio\<close>\<close>

text \<open>
  The work list \<^verbatim>\<open>queue\<close> is kept with its last element first: \<^verbatim>\<open>queue.pop()\<close> takes
  the head, \<^verbatim>\<open>queue.append\<close> puts in front. The loop ends because each region is
  replaced by smaller ones.
\<close>

definition queue_weight :: "(int \<times> int \<times> int \<times> int) list \<Rightarrow> nat" where
  "queue_weight queue = sum_list (map (\<lambda>(alo, ahi, blo, bhi). 2 * nat (ahi - alo) + 1) queue)"

function matching_blocks_loop ::
  "'a list \<Rightarrow> 'a list \<Rightarrow> (int \<times> int \<times> int \<times> int) list \<Rightarrow> match list \<Rightarrow> match list" where
  "matching_blocks_loop a b [] matching_blocks = matching_blocks"
| "matching_blocks_loop a b ((alo, ahi, blo, bhi) # queue) matching_blocks =
     (case find_longest_match a b alo ahi blo bhi of
        (i, j, k) \<Rightarrow>
          if k \<noteq> 0
          then matching_blocks_loop a b
                 ((if i + k < ahi \<and> j + k < bhi then [(i + k, ahi, j + k, bhi)] else []) @
                  (if alo < i \<and> blo < j then [(alo, i, blo, j)] else []) @ queue)
                 (matching_blocks @ [(i, j, k)])
          else matching_blocks_loop a b queue matching_blocks)"
  by pat_completeness auto
termination
proof (relation "measure (\<lambda>(a, b, queue, matching_blocks). queue_weight queue)", goal_cases)
  case 1
  show ?case by simp
next
  case (2 a b alo ahi blo bhi queue matching_blocks i y j k)
  then have flm: "find_longest_match a b alo ahi blo bhi = (i, j, k)" by simp
  from find_longest_match_bounds(1,2,4)[OF flm] 2(3)
  show ?case by (auto simp: queue_weight_def)
next
  case 3
  then show ?case by (simp add: queue_weight_def)
qed

declare matching_blocks_loop.simps [simp del]

text \<open>The loop that merges adjacent blocks, and the sentinel \<open>(la, lb, 0)\<close> at the end.\<close>

fun collapse :: "match \<Rightarrow> match list \<Rightarrow> match list \<Rightarrow> match list" where
  "collapse (i1, j1, k1) [] non_adjacent =
     (if k1 \<noteq> 0 then non_adjacent @ [(i1, j1, k1)] else non_adjacent)"
| "collapse (i1, j1, k1) ((i2, j2, k2) # rest) non_adjacent =
     (if i1 + k1 = i2 \<and> j1 + k1 = j2 then collapse (i1, j1, k1 + k2) rest non_adjacent
      else collapse (i2, j2, k2) rest (if k1 \<noteq> 0 then non_adjacent @ [(i1, j1, k1)] else non_adjacent))"

definition get_matching_blocks :: "'a list \<Rightarrow> 'a list \<Rightarrow> match list" where
  "get_matching_blocks a b =
     (let la = int (length a); lb = int (length b);
          matching_blocks = sort (matching_blocks_loop a b [(0, la, 0, lb)] [])
      in collapse (0, 0, 0) matching_blocks [] @ [(la, lb, 0)])"

definition calculate_ratio :: "int \<Rightarrow> int \<Rightarrow> rat" where
  "calculate_ratio matches len = (if len \<noteq> 0 then 2 * of_int matches / of_int len else 1)"

definition ratio :: "'a list \<Rightarrow> 'a list \<Rightarrow> rat" where
  "ratio a b =
     calculate_ratio (sum_list (map (\<lambda>(i, j, k). k) (get_matching_blocks a b)))
       (int (length a) + int (length b))"

subsection \<open>The matches counted by \<^verbatim>\<open>ratio\<close> are common elements\<close>

definition block_sizes :: "match list \<Rightarrow> int" where
  "block_sizes blocks = sum_list (map (\<lambda>(i, j, k). k) blocks)"

definition seg :: "'a list \<Rightarrow> int \<Rightarrow> int \<Rightarrow> 'a list" where
  "seg xs lo hi = take (nat (hi - lo)) (drop (nat lo) xs)"

definition region_ok :: "'a list \<Rightarrow> 'a list \<Rightarrow> int \<times> int \<times> int \<times> int \<Rightarrow> bool" where
  "region_ok a b r \<longleftrightarrow>
     (case r of (alo, ahi, blo, bhi) \<Rightarrow>
        0 \<le> alo \<and> alo \<le> ahi \<and> ahi \<le> int (length a) \<and> 0 \<le> blo \<and> blo \<le> bhi \<and> bhi \<le> int (length b))"

definition common :: "'a list \<Rightarrow> 'a list \<Rightarrow> int \<times> int \<times> int \<times> int \<Rightarrow> int" where
  "common a b r =
     (case r of (alo, ahi, blo, bhi) \<Rightarrow> int (size (mset (seg a alo ahi) \<inter># mset (seg b blo bhi))))"

lemma block_sizes_simps [simp]:
  "block_sizes [] = 0"
  "block_sizes ((i, j, k) # blocks) = k + block_sizes blocks"
  "block_sizes (xs @ ys) = block_sizes xs + block_sizes ys"
  by (simp_all add: block_sizes_def)

lemma block_sizes_mset: "mset xs = mset ys \<Longrightarrow> block_sizes xs = block_sizes ys"
proof -
  assume "mset xs = mset ys"
  then have "mset (map (\<lambda>(i, j, k). k) xs) = mset (map (\<lambda>(i :: int, j :: int, k :: int). k) ys)"
    by simp
  then have "sum_mset (mset (map (\<lambda>(i, j, k). k) xs)) = sum_mset (mset (map (\<lambda>(i :: int, j :: int, k :: int). k) ys))"
    by (rule arg_cong)
  then show ?thesis unfolding block_sizes_def by (simp only: sum_mset_sum_list)
qed

lemma block_sizes_sort: "block_sizes (sort blocks) = block_sizes blocks"
  by (rule block_sizes_mset) simp

lemma block_sizes_collapse:
  "block_sizes (collapse m rest non_adjacent) =
     snd (snd m) + block_sizes rest + block_sizes non_adjacent"
  by (induction m rest non_adjacent rule: collapse.induct) auto

lemma seg_split:
  assumes "0 \<le> lo" "lo \<le> mid" "mid \<le> hi"
  shows "seg xs lo hi = seg xs lo mid @ seg xs mid hi"
proof -
  define ys where "ys = drop (nat lo) xs"
  have n: "nat (hi - lo) = nat (mid - lo) + nat (hi - mid)"
    using assms by auto
  have d: "drop (nat mid) xs = drop (nat (mid - lo)) ys"
  proof -
    have "nat mid = nat (mid - lo) + nat lo" using assms by auto
    then show ?thesis unfolding ys_def by (simp only: drop_drop)
  qed
  have "take (nat (mid - lo) + nat (hi - mid)) ys =
        take (nat (mid - lo)) ys @ take (nat (hi - mid)) (drop (nat (mid - lo)) ys)"
    by (rule take_add)
  then show ?thesis
    unfolding seg_def n d ys_def[symmetric] .
qed

lemma seg_eq:
  assumes "0 \<le> i" "0 \<le> j" "0 \<le> k" "i + k \<le> int (length a)" "j + k \<le> int (length b)"
    and "\<And>t. 0 \<le> t \<Longrightarrow> t < k \<Longrightarrow> a ! nat (i + t) = b ! nat (j + t)"
  shows "seg a i (i + k) = seg b j (j + k)" and "length (seg a i (i + k)) = nat k"
proof -
  show "length (seg a i (i + k)) = nat k" using assms(1-4) by (auto simp: seg_def)
  show "seg a i (i + k) = seg b j (j + k)"
  proof (rule nth_equalityI)
    show "length (seg a i (i + k)) = length (seg b j (j + k))"
      using assms(1-5) by (auto simp: seg_def)
    fix n assume "n < length (seg a i (i + k))"
    then have n: "int n < k" using assms(1-4) by (auto simp: seg_def)
    from assms(6)[of "int n"] n have "a ! nat (i + int n) = b ! nat (j + int n)" by simp
    moreover have "nat (i + int n) = nat i + n" "nat (j + int n) = nat j + n"
      using assms(1,2) by (auto simp: nat_add_distrib)
    ultimately show "seg a i (i + k) ! n = seg b j (j + k) ! n"
      using n assms(1-5) by (simp add: seg_def)
  qed
qed

lemma inter_three:
  "size (A1 \<inter># B1) + size M + size (A3 \<inter># B3) \<le> size ((A1 + M + A3) \<inter># (B1 + M + B3))"
proof -
  have "(A1 \<inter># B1) + M + (A3 \<inter># B3) \<subseteq># A1 + M + A3"
    by (intro mset_subset_eq_mono_add) simp_all
  moreover have "(A1 \<inter># B1) + M + (A3 \<inter># B3) \<subseteq># B1 + M + B3"
    by (intro mset_subset_eq_mono_add) simp_all
  ultimately have "(A1 \<inter># B1) + M + (A3 \<inter># B3) \<subseteq># (A1 + M + A3) \<inter># (B1 + M + B3)"
    by simp
  from size_mset_mono[OF this] show ?thesis by simp
qed

lemma common_nonneg: "0 \<le> common a b r"
  by (cases r) (simp add: common_def)

lemma common_split:
  assumes r: "region_ok a b (alo, ahi, blo, bhi)"
    and flm: "find_longest_match a b alo ahi blo bhi = (i, j, k)" and k: "k \<noteq> 0"
  shows "k + common a b (alo, i, blo, j) + common a b (i + k, ahi, j + k, bhi)
           \<le> common a b (alo, ahi, blo, bhi)"
    and "region_ok a b (alo, i, blo, j)" and "region_ok a b (i + k, ahi, j + k, bhi)"
proof -
  note bd = find_longest_match_bounds[OF flm]
  from bd(1) k have kpos: "0 < k" by simp
  from bd(4)[OF k] have hi: "i + k \<le> ahi" "j + k \<le> bhi" by simp_all
  from r have rr: "0 \<le> alo" "alo \<le> ahi" "ahi \<le> int (length a)" "0 \<le> blo" "blo \<le> bhi"
    "bhi \<le> int (length b)" by (simp_all add: region_ok_def)
  show "region_ok a b (alo, i, blo, j)" "region_ok a b (i + k, ahi, j + k, bhi)"
    using rr bd(2,3) hi kpos by (simp_all add: region_ok_def)
  have sa: "seg a alo ahi = seg a alo i @ seg a i (i + k) @ seg a (i + k) ahi"
    using seg_split[of alo i ahi a] seg_split[of i "i + k" ahi a] rr bd(2) hi kpos by simp
  have sb: "seg b blo bhi = seg b blo j @ seg b j (j + k) @ seg b (j + k) bhi"
    using seg_split[of blo j bhi b] seg_split[of j "j + k" bhi b] rr bd(3) hi kpos by simp
  have eq: "seg a i (i + k) = seg b j (j + k)" and len: "length (seg a i (i + k)) = nat k"
    using seg_eq[of i j k a b] bd(5) rr bd(2,3) hi kpos by simp_all
  let ?M = "mset (seg a i (i + k))"
  have "size (mset (seg a alo i) \<inter># mset (seg b blo j)) + size ?M +
        size (mset (seg a (i + k) ahi) \<inter># mset (seg b (j + k) bhi))
        \<le> size ((mset (seg a alo i) + ?M + mset (seg a (i + k) ahi)) \<inter>#
                 (mset (seg b blo j) + ?M + mset (seg b (j + k) bhi)))"
    by (rule inter_three)
  moreover have "size ?M = nat k" using len by simp
  moreover have "mset (seg a alo ahi) = mset (seg a alo i) + ?M + mset (seg a (i + k) ahi)"
    by (simp add: sa)
  moreover have "mset (seg b blo bhi) = mset (seg b blo j) + ?M + mset (seg b (j + k) bhi)"
    by (simp add: sb eq)
  ultimately have "size (mset (seg a alo i) \<inter># mset (seg b blo j)) + nat k +
        size (mset (seg a (i + k) ahi) \<inter># mset (seg b (j + k) bhi))
        \<le> size (mset (seg a alo ahi) \<inter># mset (seg b blo bhi))"
    by simp
  then show "k + common a b (alo, i, blo, j) + common a b (i + k, ahi, j + k, bhi)
           \<le> common a b (alo, ahi, blo, bhi)"
    using kpos by (simp add: common_def)
qed

lemma matching_blocks_loop_bound:
  assumes "\<forall>r \<in> set queue. region_ok a b r"
  shows "block_sizes (matching_blocks_loop a b queue matching_blocks)
           \<le> block_sizes matching_blocks + sum_list (map (common a b) queue)"
  using assms
proof (induction a b queue matching_blocks rule: matching_blocks_loop.induct)
  case (1 a b matching_blocks)
  show ?case by (simp add: matching_blocks_loop.simps)
next
  case (2 a b alo ahi blo bhi queue matching_blocks)
  obtain i j k where flm: "find_longest_match a b alo ahi blo bhi = (i, j, k)"
    by (cases "find_longest_match a b alo ahi blo bhi") auto
  from "2.prems" have r: "region_ok a b (alo, ahi, blo, bhi)" and q: "\<forall>r \<in> set queue. region_ok a b r"
    by simp_all
  show ?case
  proof (cases "k = 0")
    case True
    have "block_sizes (matching_blocks_loop a b queue matching_blocks)
            \<le> block_sizes matching_blocks + sum_list (map (common a b) queue)"
      using "2.IH"(2)[OF flm[symmetric] refl _ q] True by simp
    then show ?thesis
      using True flm common_nonneg[of a b "(alo, ahi, blo, bhi)"]
      by (subst matching_blocks_loop.simps) simp
  next
    case False
    let ?new = "(if i + k < ahi \<and> j + k < bhi then [(i + k, ahi, j + k, bhi)] else []) @
                (if alo < i \<and> blo < j then [(alo, i, blo, j)] else []) @ queue"
    note sp = common_split[OF r flm False]
    have ok: "\<forall>r \<in> set ?new. region_ok a b r" using sp(2,3) q by auto
    have "block_sizes (matching_blocks_loop a b ?new (matching_blocks @ [(i, j, k)]))
            \<le> block_sizes (matching_blocks @ [(i, j, k)]) + sum_list (map (common a b) ?new)"
      using "2.IH"(1)[OF flm[symmetric] refl _ ok] False by simp
    also have "sum_list (map (common a b) ?new)
            \<le> common a b (i + k, ahi, j + k, bhi) + common a b (alo, i, blo, j)
                + sum_list (map (common a b) queue)"
      using common_nonneg[of a b "(i + k, ahi, j + k, bhi)"] common_nonneg[of a b "(alo, i, blo, j)"]
      by simp
    finally have "block_sizes (matching_blocks_loop a b ?new (matching_blocks @ [(i, j, k)]))
            \<le> block_sizes matching_blocks + common a b (alo, ahi, blo, bhi)
                + sum_list (map (common a b) queue)"
      using sp(1) by simp
    then show ?thesis
      using False flm by (subst matching_blocks_loop.simps) simp
  qed
qed

lemma seg_whole: "seg xs 0 (int (length xs)) = xs"
  by (simp add: seg_def)

lemma matches_le_common:
  "block_sizes (get_matching_blocks a b) \<le> int (size (mset a \<inter># mset b))"
proof -
  have "block_sizes (matching_blocks_loop a b [(0, int (length a), 0, int (length b))] [])
          \<le> block_sizes [] + sum_list (map (common a b) [(0, int (length a), 0, int (length b))])"
    by (rule matching_blocks_loop_bound) (simp add: region_ok_def)
  then show ?thesis
    by (simp add: get_matching_blocks_def Let_def block_sizes_collapse block_sizes_sort
        common_def seg_whole)
qed

subsection \<open>\<^verbatim>\<open>quick_ratio\<close> and \<^verbatim>\<open>real_quick_ratio\<close>\<close>

fun fullbcount_loop :: "'a list \<Rightarrow> ('a \<rightharpoonup> int) \<Rightarrow> ('a \<rightharpoonup> int)" where
  "fullbcount_loop [] fullbcount = fullbcount"
| "fullbcount_loop (elt # rest) fullbcount =
     fullbcount_loop rest (fullbcount(elt \<mapsto> (case fullbcount elt of None \<Rightarrow> 0 | Some c \<Rightarrow> c) + 1))"

fun quick_ratio_loop :: "('a \<rightharpoonup> int) \<Rightarrow> 'a list \<Rightarrow> ('a \<rightharpoonup> int) \<Rightarrow> int \<Rightarrow> int" where
  "quick_ratio_loop fullbcount [] avail matches = matches"
| "quick_ratio_loop fullbcount (elt # rest) avail matches =
     (let numb = (case avail elt of
                    Some n \<Rightarrow> n
                  | None \<Rightarrow> (case fullbcount elt of None \<Rightarrow> 0 | Some c \<Rightarrow> c))
      in quick_ratio_loop fullbcount rest (avail(elt \<mapsto> numb - 1))
           (if numb > 0 then matches + 1 else matches))"

definition quick_ratio :: "'a list \<Rightarrow> 'a list \<Rightarrow> rat" where
  "quick_ratio a b =
     calculate_ratio (quick_ratio_loop (fullbcount_loop b Map.empty) a Map.empty 0)
       (int (length a) + int (length b))"

definition real_quick_ratio :: "'a list \<Rightarrow> 'a list \<Rightarrow> rat" where
  "real_quick_ratio a b =
     (let la = int (length a); lb = int (length b) in calculate_ratio (min la lb) (la + lb))"

lemma fullbcount_loop_count:
  "(case fullbcount_loop b m x of None \<Rightarrow> 0 | Some c \<Rightarrow> c) =
     (case m x of None \<Rightarrow> 0 | Some c \<Rightarrow> c) + int (count (mset b) x)"
  by (induction b arbitrary: m) (auto split: option.splits)

definition avail_of :: "('a \<rightharpoonup> int) \<Rightarrow> ('a \<rightharpoonup> int) \<Rightarrow> 'a \<Rightarrow> int" where
  "avail_of fullbcount avail x =
     (case avail x of Some n \<Rightarrow> n | None \<Rightarrow> (case fullbcount x of None \<Rightarrow> 0 | Some c \<Rightarrow> c))"

lemma avail_of_upd:
  "avail_of fb (avail(elt \<mapsto> v)) x = (if x = elt then v else avail_of fb avail x)"
  by (simp add: avail_of_def)

lemma quick_ratio_loop_inter:
  assumes "\<forall>x. nat (avail_of fb avail x) = count B x"
  shows "quick_ratio_loop fb a avail m = m + int (size (mset a \<inter># B))"
  using assms
proof (induction a arbitrary: avail m B)
  case Nil
  show ?case by simp
next
  case (Cons elt rest)
  let ?numb = "avail_of fb avail elt"
  let ?avail' = "avail(elt \<mapsto> ?numb - 1)"
  have step: "quick_ratio_loop fb (elt # rest) avail m =
      quick_ratio_loop fb rest ?avail' (if ?numb > 0 then m + 1 else m)"
    by (simp add: avail_of_def Let_def)
  show ?case
  proof (cases "?numb > 0")
    case True
    then have in_B: "elt \<in># B" using Cons.prems[rule_format, of elt]
      by (metis count_greater_zero_iff zero_less_nat_eq)
    have "\<forall>x. nat (avail_of fb ?avail' x) = count (B - {#elt#}) x"
    proof
      fix x
      show "nat (avail_of fb ?avail' x) = count (B - {#elt#}) x"
        using Cons.prems[rule_format, of x] True
        by (cases "x = elt") (simp_all add: avail_of_upd nat_diff_distrib')
    qed
    from Cons.IH[OF this, of "m + 1"] True
    have "quick_ratio_loop fb (elt # rest) avail m = m + 1 + int (size (mset rest \<inter># (B - {#elt#})))"
      by (simp only: step if_True)
    moreover have "mset (elt # rest) \<inter># B = add_mset elt (mset rest \<inter># (B - {#elt#}))"
      using in_B by (simp add: add_mset_inter_add_mset[symmetric] del: add_mset_inter_add_mset)
    ultimately show ?thesis by simp
  next
    case False
    then have not_B: "elt \<notin># B" using Cons.prems[rule_format, of elt]
      by (metis count_greater_zero_iff zero_less_nat_eq)
    have "\<forall>x. nat (avail_of fb ?avail' x) = count B x"
    proof
      fix x
      show "nat (avail_of fb ?avail' x) = count B x"
        using Cons.prems[rule_format, of x] False
        by (cases "x = elt") (simp_all add: avail_of_upd)
    qed
    from Cons.IH[OF this, of m] False
    have "quick_ratio_loop fb (elt # rest) avail m = m + int (size (mset rest \<inter># B))"
      by (simp only: step if_False)
    moreover have "mset (elt # rest) \<inter># B = mset rest \<inter># B"
      using not_B by (simp add: inter_add_left1)
    ultimately show ?thesis by simp
  qed
qed

lemma quick_ratio_eq:
  "quick_ratio a b = calculate_ratio (int (size (mset a \<inter># mset b))) (int (length a) + int (length b))"
proof -
  have "\<forall>x. nat (avail_of (fullbcount_loop b Map.empty) Map.empty x) = count (mset b) x"
    using fullbcount_loop_count[of b Map.empty] by (simp add: avail_of_def)
  from quick_ratio_loop_inter[OF this, of a 0] show ?thesis
    by (simp add: quick_ratio_def)
qed

lemma calculate_ratio_mono:
  "m1 \<le> m2 \<Longrightarrow> 0 \<le> len \<Longrightarrow> calculate_ratio m1 len \<le> calculate_ratio m2 len"
  by (simp add: calculate_ratio_def divide_right_mono)

lemma ratio_le_quick_ratio: "ratio a b \<le> quick_ratio a b"
  unfolding ratio_def quick_ratio_eq block_sizes_def[symmetric]
  by (intro calculate_ratio_mono matches_le_common) simp

lemma quick_ratio_le_real_quick_ratio: "quick_ratio a b \<le> real_quick_ratio a b"
proof -
  have "size (mset a \<inter># mset b) \<le> size (mset a)" "size (mset a \<inter># mset b) \<le> size (mset b)"
    by (intro size_mset_mono; simp)+
  then have "int (size (mset a \<inter># mset b)) \<le> min (int (length a)) (int (length b))"
    by simp
  then show ?thesis
    unfolding quick_ratio_eq real_quick_ratio_def Let_def
    by (intro calculate_ratio_mono) simp_all
qed

subsection \<open>\<^verbatim>\<open>get_close_matches\<close> with \<open>n = 1\<close>\<close>

text \<open>
  The sequence matcher has \<open>b = word\<close> and, in turn, \<open>a = x\<close> for each possibility
  \<open>x\<close>. With \<open>n = 1\<close> \<^verbatim>\<open>heapq.nlargest\<close> is \<^verbatim>\<open>max\<close> over the pairs
  \<open>(score, x)\<close>, which Python compares lexicographically; \<^verbatim>\<open>max\<close> keeps the first
  of equal items. The argument checks of \<^verbatim>\<open>get_close_matches\<close> pass for \<open>n = 1\<close> and
  the cutoff 0.8.
\<close>

fun close_matches_loop ::
  "string \<Rightarrow> rat \<Rightarrow> string list \<Rightarrow> (rat \<times> string) list \<Rightarrow> (rat \<times> string) list" where
  "close_matches_loop word cutoff [] result = result"
| "close_matches_loop word cutoff (x # possibilities) result =
     close_matches_loop word cutoff possibilities
       (if real_quick_ratio x word \<ge> cutoff \<and> quick_ratio x word \<ge> cutoff \<and> ratio x word \<ge> cutoff
        then result @ [(ratio x word, x)] else result)"

fun max_loop :: "'a :: linorder \<Rightarrow> 'a list \<Rightarrow> 'a" where
  "max_loop maxitem [] = maxitem"
| "max_loop maxitem (item # rest) = max_loop (if item > maxitem then item else maxitem) rest"

definition nlargest1 :: "'a :: linorder list \<Rightarrow> 'a list" where
  "nlargest1 iterable = (case iterable of [] \<Rightarrow> [] | x # rest \<Rightarrow> [max_loop x rest])"

definition get_close_matches :: "string \<Rightarrow> string list \<Rightarrow> rat \<Rightarrow> string list" where
  "get_close_matches word possibilities cutoff =
     map snd (nlargest1 (close_matches_loop word cutoff possibilities []))"

lemma close_filter:
  "real_quick_ratio x w \<ge> c \<and> quick_ratio x w \<ge> c \<and> ratio x w \<ge> c \<longleftrightarrow> ratio x w \<ge> c"
  using ratio_le_quick_ratio[of x w] quick_ratio_le_real_quick_ratio[of x w] by auto

lemma close_matches_loop_eq:
  "close_matches_loop word cutoff possibilities result =
     result @ map (\<lambda>x. (ratio x word, x)) (filter (\<lambda>x. cutoff \<le> ratio x word) possibilities)"
  by (induction possibilities arbitrary: result) (simp_all add: close_filter)

lemma max_loop_Max: "max_loop m xs = Max (set (m # xs))"
proof -
  have "max_loop m xs = fold max xs m"
    by (induction xs arbitrary: m) (auto simp: max_def)
  then show ?thesis by (simp only: Max.set_eq_fold)
qed

definition close_set :: "string \<Rightarrow> string set \<Rightarrow> rat \<Rightarrow> (rat \<times> string) set" where
  "close_set word db cutoff = (\<lambda>x. (ratio x word, x)) ` {x \<in> db. cutoff \<le> ratio x word}"

lemma get_close_matches_Max:
  "get_close_matches word possibilities cutoff =
     (if close_set word (set possibilities) cutoff = {} then []
      else [snd (Max (close_set word (set possibilities) cutoff))])"
proof -
  let ?r = "map (\<lambda>x. (ratio x word, x)) (filter (\<lambda>x. cutoff \<le> ratio x word) possibilities)"
  have s: "set ?r = close_set word (set possibilities) cutoff"
    by (auto simp: close_set_def)
  show ?thesis
  proof (cases ?r)
    case Nil
    with s[symmetric] show ?thesis
      by (simp add: get_close_matches_def close_matches_loop_eq nlargest1_def)
  next
    case (Cons t ts)
    with s have "close_set word (set possibilities) cutoff = set (t # ts)" by simp
    with Cons show ?thesis
      by (simp add: get_close_matches_def close_matches_loop_eq nlargest1_def max_loop_Max)
  qed
qed

lemma get_close_matches_none:
  assumes "\<forall>x \<in> set db. ratio x word < cutoff"
  shows "get_close_matches word db cutoff = []"
proof -
  from assms have "close_set word (set db) cutoff = {}"
    by (auto simp: close_set_def)
  then show ?thesis by (simp add: get_close_matches_Max)
qed

lemma get_close_matches_best:
  assumes "\<exists>x \<in> set db. cutoff \<le> ratio x word"
  shows "\<exists>m \<in> set db. get_close_matches word db cutoff = [m] \<and> cutoff \<le> ratio m word \<and>
           (\<forall>x \<in> set db. ratio x word \<le> ratio m word) \<and>
           (\<forall>x \<in> set db. ratio x word = ratio m word \<longrightarrow> x \<le> m)"
proof -
  let ?R = "close_set word (set db) cutoff"
  have fin: "finite ?R" by (simp add: close_set_def)
  from assms have ne: "?R \<noteq> {}" by (auto simp: close_set_def)
  from Max_in[OF fin ne] obtain m where m: "Max ?R = (ratio m word, m)" "m \<in> set db" "cutoff \<le> ratio m word"
    by (auto simp: close_set_def)
  have top: "(ratio x word, x) \<le> (ratio m word, m)" if "x \<in> set db" "cutoff \<le> ratio x word" for x
  proof -
    from that have "(ratio x word, x) \<in> ?R" by (auto simp: close_set_def)
    from Max_ge[OF fin this] m(1) show ?thesis by simp
  qed
  have "ratio x word \<le> ratio m word" if "x \<in> set db" for x
  proof (cases "cutoff \<le> ratio x word")
    case True
    from top[OF that True] show ?thesis by (auto simp: less_eq_prod_def)
  next
    case False
    with m(3) show ?thesis by simp
  qed
  moreover have "x \<le> m" if "x \<in> set db" "ratio x word = ratio m word" for x
  proof -
    from that m(3) have "cutoff \<le> ratio x word" by simp
    from top[OF that(1) this] that(2) show ?thesis by (auto simp: less_eq_prod_def)
  qed
  moreover have "get_close_matches word db cutoff = [m]"
    using ne m(1) by (simp add: get_close_matches_Max)
  ultimately show ?thesis using m(2,3) by blast
qed

lemma get_close_matches_subset: "set (get_close_matches word db cutoff) \<subseteq> set db"
proof (cases "close_set word (set db) cutoff = {}")
  case True
  then show ?thesis by (simp add: get_close_matches_Max)
next
  case False
  have "finite (close_set word (set db) cutoff)" by (simp add: close_set_def)
  from Max_in[OF this False] have "snd (Max (close_set word (set db) cutoff)) \<in> set db"
    by (auto simp: close_set_def)
  with False show ?thesis by (simp add: get_close_matches_Max)
qed

lemma get_close_matches_order:
  "set db = set db' \<Longrightarrow> get_close_matches word db cutoff = get_close_matches word db' cutoff"
  by (simp add: get_close_matches_Max)

section \<open>Matcher: \<^verbatim>\<open>match_items\<close>\<close>

text \<open>
  The set \<^verbatim>\<open>item_db\<close> is given by the list of its elements in iteration order, which is
  the order \<^verbatim>\<open>get_close_matches\<close> reads it in; \<^verbatim>\<open>parsed_names\<close> is the list of the names
  in iteration order. The result is the set \<^verbatim>\<open>matched_items\<close> together with the records
  written by \<^verbatim>\<open>logging.warning\<close> and \<^verbatim>\<open>logging.info\<close>. \<open>match_items_with\<close> is the loop for
  any closest-match function; \<open>match_items\<close> supplies the one of \<^verbatim>\<open>difflib\<close>.
\<close>

datatype log_record = Warning string | Info string string

fun match_items_loop ::
  "(string \<Rightarrow> string list) \<Rightarrow> string set \<Rightarrow> string list \<Rightarrow> string set \<times> log_record list
     \<Rightarrow> string set \<times> log_record list" where
  "match_items_loop close_matches item_db [] st = st"
| "match_items_loop close_matches item_db (item # rest) (matched_items, logged) =
     (if item \<in> item_db
      then match_items_loop close_matches item_db rest (insert item matched_items, logged)
      else (let matches = close_matches item
            in if matches = []
               then match_items_loop close_matches item_db rest (matched_items, logged @ [Warning item])
               else match_items_loop close_matches item_db rest
                      (insert (hd matches) matched_items, logged @ [Info item (hd matches)])))"

definition match_items_with ::
  "(string \<Rightarrow> string list) \<Rightarrow> string list \<Rightarrow> string set \<Rightarrow> string set \<times> log_record list" where
  "match_items_with close_matches parsed_names item_db =
     match_items_loop close_matches item_db parsed_names ({}, [])"

definition match_items :: "string list \<Rightarrow> string list \<Rightarrow> string set \<times> log_record list" where
  "match_items parsed_names item_db =
     match_items_with (\<lambda>item. get_close_matches item item_db (4 / 5)) parsed_names (set item_db)"

text \<open>What one name contributes to the result and to the log.\<close>

definition match_one :: "(string \<Rightarrow> string list) \<Rightarrow> string set \<Rightarrow> string \<Rightarrow> string set \<times> log_record list" where
  "match_one close_matches item_db item =
     (if item \<in> item_db then ({item}, [])
      else if close_matches item = [] then ({}, [Warning item])
      else ({hd (close_matches item)}, [Info item (hd (close_matches item))]))"

section \<open>Catalog Scanner: \<^verbatim>\<open>scan_catalog\<close>\<close>

text \<open>
  Python does not fix the order in which a set is iterated. Each place where
  \<^verbatim>\<open>scan_catalog\<close> iterates a set gets its order as a parameter: \<open>iter_names\<close> for the
  loop of \<^verbatim>\<open>match_items\<close> over \<^verbatim>\<open>item_names\<close>, \<open>iter_db\<close> for the loop of
  \<^verbatim>\<open>get_close_matches\<close> over \<^verbatim>\<open>item_db\<close>, \<open>iter_clean\<close> for \<^verbatim>\<open>sorted(clean_names)\<close>.
  An iteration order lists a finite set once each element. \<^verbatim>\<open>sorted\<close> is a stable sort
  (\<open>sort\<close>); the list read by \<^verbatim>\<open>json.load\<close> from the items file is \<open>items_json\<close>.
\<close>

definition iteration_order :: "('a set \<Rightarrow> 'a list) \<Rightarrow> bool" where
  "iteration_order it \<longleftrightarrow> (\<forall>S. finite S \<longrightarrow> set (it S) = S \<and> distinct (it S))"

definition scan_catalog ::
  "(string set \<Rightarrow> string list) \<Rightarrow> (string set \<Rightarrow> string list) \<Rightarrow> (string set \<Rightarrow> string list) \<Rightarrow>
   ('img \<Rightarrow> frame) \<Rightarrow> (frame \<Rightarrow> py_error + string) \<Rightarrow> string list \<Rightarrow> 'img list option \<Rightarrow>
   py_error + string list" where
  "scan_catalog iter_names iter_db iter_clean cvtColor image_to_string items_json video_file =
     (case fst (parse_video cvtColor video_file) of
        Inl e \<Rightarrow> Inl e
      | Inr item_rows \<Rightarrow>
          (case run_tesseract image_to_string item_rows of
             Inl e \<Rightarrow> Inl e
           | Inr item_names \<Rightarrow>
               (let item_db = set items_json;
                    clean_names = fst (match_items (iter_names item_names) (iter_db item_db))
                in Inr (sort (iter_clean clean_names)))))"

text \<open>An OCR stand-in and a vocabulary for the concrete runs below.\<close>

definition stub_ocr :: "frame \<Rightarrow> py_error + string" where
  "stub_ocr img = Inr ''Iron Sword\<newline>\<newline>Crackd Sheild\<newline>xyzzy''"

definition stub_items :: "string list" where
  "stub_items = [''iron sword'', ''cracked shield'', ''steel shield'']"

subsection \<open>The loop of \<^verbatim>\<open>match_items\<close>, name by name\<close>

lemma match_items_loop_eq:
  "match_items_loop close_matches item_db items (matched_items, logged) =
     (matched_items \<union> (\<Union>c \<in> set items. fst (match_one close_matches item_db c)),
      logged @ concat (map (\<lambda>c. snd (match_one close_matches item_db c)) items))"
  by (induction items arbitrary: matched_items logged) (auto simp: match_one_def Let_def)

lemma match_items_with_eq:
  "match_items_with close_matches parsed_names item_db =
     (\<Union>c \<in> set parsed_names. fst (match_one close_matches item_db c),
      concat (map (\<lambda>c. snd (match_one close_matches item_db c)) parsed_names))"
  by (simp add: match_items_with_def match_items_loop_eq)

lemma match_items_with_single:
  "match_items_with close_matches [c] item_db = match_one close_matches item_db c"
  by (simp add: match_items_with_eq)

lemma match_items_single:
  "match_items [c] item_db = match_one (\<lambda>item. get_close_matches item item_db (4 / 5)) (set item_db) c"
  by (simp add: match_items_def match_items_with_single)

lemma fst_match_items:
  "fst (match_items parsed_names item_db) = (\<Union>c \<in> set parsed_names. fst (match_items [c] item_db))"
  by (simp add: match_items_def match_items_with_eq)

lemma match_one_subset:
  "fst (match_one (\<lambda>item. get_close_matches item item_db cutoff) (set item_db) c) \<subseteq> set item_db"
  using get_close_matches_subset[of c item_db cutoff]
  by (cases "get_close_matches c item_db cutoff") (auto simp: match_one_def)

lemma fst_match_items_subset: "fst (match_items parsed_names item_db) \<subseteq> set item_db"
  using match_one_subset[of item_db "4 / 5"]
  by (auto simp: match_items_def match_items_with_eq)

lemma finite_fst_match_items: "finite (fst (match_items parsed_names item_db))"
  by (rule finite_subset[OF fst_match_items_subset]) simp

text \<open>
  C3. For a name \<open>c\<close> of the vocabulary the Matcher applied to the single candidate
  \<open>c\<close> returns exactly \<open>{c}\<close> and logs nothing; this holds for every closest-match
  function put in the place of \<^verbatim>\<open>difflib.get_close_matches\<close>, so the fuzzy step has no
  part in it.
\<close>

theorem match_items_exact:
  assumes "c \<in> set item_db"
  shows "match_items_with close_matches [c] (set item_db) = ({c}, []) \<and>
         match_items [c] item_db = ({c}, [])"
  using assms by (simp add: match_items_def match_items_with_single match_one_def)

text \<open>
  C4. For a candidate \<open>c\<close> that is not in the vocabulary: when some entry has a ratio of
  at least \<open>4/5\<close>, exactly one entry \<open>m\<close> is accepted (and the pair logged at level
  info); its ratio is at least \<open>4/5\<close> and is the highest of all entries, and among the
  entries with that ratio it is the greatest string. When every entry has a ratio below
  \<open>4/5\<close> the result is empty and a warning is logged; nothing is raised.
\<close>

theorem match_items_cutoff:
  assumes "c \<notin> set item_db"
  shows "((\<exists>x \<in> set item_db. 4 / 5 \<le> ratio x c) \<longrightarrow>
            (\<exists>m \<in> set item_db. match_items [c] item_db = ({m}, [Info c m]) \<and>
               4 / 5 \<le> ratio m c \<and>
               (\<forall>x \<in> set item_db. ratio x c \<le> ratio m c) \<and>
               (\<forall>x \<in> set item_db. ratio x c = ratio m c \<longrightarrow> x \<le> m))) \<and>
         ((\<forall>x \<in> set item_db. ratio x c < 4 / 5) \<longrightarrow>
            match_items [c] item_db = ({}, [Warning c]))"
proof (intro conjI impI)
  assume "\<exists>x \<in> set item_db. 4 / 5 \<le> ratio x c"
  from get_close_matches_best[OF this] obtain m where m: "m \<in> set item_db"
    "get_close_matches c item_db (4 / 5) = [m]" "4 / 5 \<le> ratio m c"
    "\<forall>x \<in> set item_db. ratio x c \<le> ratio m c"
    "\<forall>x \<in> set item_db. ratio x c = ratio m c \<longrightarrow> x \<le> m"
    by blast
  from assms m(2) have "match_items [c] item_db = ({m}, [Info c m])"
    by (simp add: match_items_single match_one_def)
  with m show "\<exists>m \<in> set item_db. match_items [c] item_db = ({m}, [Info c m]) \<and>
               4 / 5 \<le> ratio m c \<and>
               (\<forall>x \<in> set item_db. ratio x c \<le> ratio m c) \<and>
               (\<forall>x \<in> set item_db. ratio x c = ratio m c \<longrightarrow> x \<le> m)"
    by blast
next
  assume "\<forall>x \<in> set item_db. ratio x c < 4 / 5"
  from get_close_matches_none[OF this] assms
  show "match_items [c] item_db = ({}, [Warning c])"
    by (simp add: match_items_single match_one_def)
qed

lemma ratio_abcdx: "ratio ''abcde'' ''abcdx'' = 4 / 5"
  by code_simp

lemma ratio_abcxy: "ratio ''abcde'' ''abcxy'' = 3 / 5"
  by code_simp

theorem match_items_cutoff_witness:
  "''abcdx'' \<notin> set [''abcde''] \<and> ratio ''abcde'' ''abcdx'' = 4 / 5 \<and>
   match_items [''abcdx''] [''abcde''] = ({''abcde''}, [Info ''abcdx'' ''abcde'']) \<and>
   ''abcxy'' \<notin> set [''abcde''] \<and> ratio ''abcde'' ''abcxy'' = 3 / 5 \<and>
   match_items [''abcxy''] [''abcde''] = ({}, [Warning ''abcxy''])"
  using match_items_cutoff[of "''abcdx''" "[''abcde'']"] match_items_cutoff[of "''abcxy''" "[''abcde'']"]
  by (simp add: ratio_abcdx ratio_abcxy)

theorem match_items_exact_witness:
  "''iron sword'' \<in> set [''iron sword'', ''cracked shield''] \<and>
   match_items_with (\<lambda>item. [''steel shield'']) [''iron sword''] (set [''iron sword'', ''cracked shield''])
     = ({''iron sword''}, []) \<and>
   match_items [''iron sword''] [''iron sword'', ''cracked shield''] = ({''iron sword''}, [])"
  using match_items_exact[of "''iron sword''" "[''iron sword'', ''cracked shield'']" "\<lambda>item. [''steel shield'']"]
  by simp

text \<open>
  C10. The result of the Matcher depends on the set of candidates only, not on the order
  (or the repetitions) in which they are listed, and it is the union of the results for
  the single candidates. Nor does it depend on the order in which the vocabulary is
  iterated.
\<close>

theorem match_items_order_independent:
  "(set xs = set ys \<longrightarrow> fst (match_items xs item_db) = fst (match_items ys item_db)) \<and>
   fst (match_items xs item_db) = (\<Union>c \<in> set xs. fst (match_items [c] item_db)) \<and>
   (set item_db = set item_db' \<longrightarrow> match_items xs item_db = match_items xs item_db')"
proof (intro conjI impI)
  assume "set xs = set ys"
  then show "fst (match_items xs item_db) = fst (match_items ys item_db)"
    by (simp add: match_items_def match_items_with_eq)
next
  show "fst (match_items xs item_db) = (\<Union>c \<in> set xs. fst (match_items [c] item_db))"
    by (rule fst_match_items)
next
  assume "set item_db = set item_db'"
  then show "match_items xs item_db = match_items xs item_db'"
    by (simp add: match_items_def get_close_matches_order[of item_db item_db'])
qed

lemma iteration_order_sorted_list: "iteration_order (sorted_list_of_set :: string set \<Rightarrow> string list)"
  by (simp add: iteration_order_def)

lemma iteration_order_rev: "iteration_order (\<lambda>S :: string set. rev (sorted_list_of_set S))"
  by (simp add: iteration_order_def)

lemma finite_cleanup_text: "finite (cleanup_text parsed_text)"
  by (simp add: cleanup_text_def)

lemma run_tesseract_finite: "run_tesseract image_to_string item_rows = Inr item_names \<Longrightarrow> finite item_names"
  by (auto simp: run_tesseract_def finite_cleanup_text split: sum.splits)

lemma scan_catalog_Inr:
  assumes "scan_catalog iter_names iter_db iter_clean cvtColor image_to_string items_json video_file = Inr out"
  obtains item_rows item_names where
    "fst (parse_video cvtColor video_file) = Inr item_rows"
    "run_tesseract image_to_string item_rows = Inr item_names"
    "out = sort (iter_clean (fst (match_items (iter_names item_names) (iter_db (set items_json)))))"
  using assms by (auto simp: scan_catalog_def Let_def split: sum.splits)

lemma sort_iteration_order:
  assumes "iteration_order it" "finite (S :: string set)"
  shows "sort (it S) = sorted_list_of_set S"
proof -
  from assms have "set (it S) = S" "distinct (it S)" by (simp_all add: iteration_order_def)
  then show ?thesis
    by (metis distinct_remdups_id sorted_list_of_set_sort_remdups)
qed

text \<open>
  C1. Every string in the result of the Matcher is a member of the vocabulary, and so is
  every string of the list \<^verbatim>\<open>scan_catalog\<close> returns.
\<close>

theorem results_in_vocabulary:
  "fst (match_items parsed_names item_db) \<subseteq> set item_db \<and>
   (iteration_order iter_db \<longrightarrow> iteration_order iter_clean \<longrightarrow>
    scan_catalog iter_names iter_db iter_clean cvtColor image_to_string items_json video_file = Inr out \<longrightarrow>
    set out \<subseteq> set items_json)"
proof (intro conjI impI)
  show "fst (match_items parsed_names item_db) \<subseteq> set item_db"
    by (rule fst_match_items_subset)
next
  assume db: "iteration_order iter_db" and cl: "iteration_order iter_clean"
    and out: "scan_catalog iter_names iter_db iter_clean cvtColor image_to_string items_json video_file = Inr out"
  from out obtain item_names where
    o: "out = sort (iter_clean (fst (match_items (iter_names item_names) (iter_db (set items_json)))))"
    by (rule scan_catalog_Inr)
  let ?clean = "fst (match_items (iter_names item_names) (iter_db (set items_json)))"
  have "set (iter_db (set items_json)) = set items_json"
    using db by (simp add: iteration_order_def)
  then have "?clean \<subseteq> set items_json"
    using fst_match_items_subset[of "iter_names item_names" "iter_db (set items_json)"] by simp
  moreover have "set (iter_clean ?clean) = ?clean"
    using cl finite_fst_match_items by (simp add: iteration_order_def)
  ultimately show "set out \<subseteq> set items_json" by (simp add: o)
qed

text \<open>
  C2. The list \<^verbatim>\<open>scan_catalog\<close> returns is sorted in the lexicographic order of strings
  and has no duplicates, and it is the same list for all iteration orders of the sets
  involved.
\<close>

theorem scan_catalog_sorted:
  assumes "iteration_order iter_clean"
    and "scan_catalog iter_names iter_db iter_clean cvtColor image_to_string items_json video_file = Inr out"
  shows "sorted out \<and> distinct out \<and>
         (\<forall>iter_names' iter_db' iter_clean'.
            iteration_order iter_names \<and> iteration_order iter_names' \<and>
            iteration_order iter_db \<and> iteration_order iter_db' \<and> iteration_order iter_clean' \<longrightarrow>
            scan_catalog iter_names' iter_db' iter_clean' cvtColor image_to_string items_json video_file = Inr out)"
proof -
  from assms(2) obtain item_rows item_names where
    pv: "fst (parse_video cvtColor video_file) = Inr item_rows"
    and rt: "run_tesseract image_to_string item_rows = Inr item_names"
    and o: "out = sort (iter_clean (fst (match_items (iter_names item_names) (iter_db (set items_json)))))"
    by (rule scan_catalog_Inr)
  let ?clean = "fst (match_items (iter_names item_names) (iter_db (set items_json)))"
  have o': "out = sorted_list_of_set ?clean"
    unfolding o by (rule sort_iteration_order[OF assms(1) finite_fst_match_items])
  have "sorted out" "distinct out" by (simp_all add: o')
  moreover have "scan_catalog iter_names' iter_db' iter_clean' cvtColor image_to_string items_json video_file = Inr out"
    if io: "iteration_order iter_names \<and> iteration_order iter_names' \<and>
            iteration_order iter_db \<and> iteration_order iter_db' \<and> iteration_order iter_clean'"
    for iter_names' iter_db' iter_clean'
  proof -
    let ?clean' = "fst (match_items (iter_names' item_names) (iter_db' (set items_json)))"
    have fin: "finite item_names" using rt by (rule run_tesseract_finite)
    have n: "set (iter_names' item_names) = set (iter_names item_names)"
      using io fin by (simp add: iteration_order_def)
    have d: "set (iter_db' (set items_json)) = set (iter_db (set items_json))"
      using io by (simp add: iteration_order_def)
    have "?clean' = fst (match_items (iter_names item_names) (iter_db' (set items_json)))"
      using n by (simp add: match_items_def match_items_with_eq)
    also have "\<dots> = ?clean"
      using d by (simp add: match_items_def get_close_matches_order[of "iter_db' (set items_json)" "iter_db (set items_json)"])
    finally have c: "?clean' = ?clean" .
    have "sort (iter_clean' ?clean') = sorted_list_of_set ?clean'"
      using io by (intro sort_iteration_order finite_fst_match_items) simp
    with c o' pv rt show ?thesis
      by (simp add: scan_catalog_def Let_def)
  qed
  ultimately show ?thesis by blast
qed

lemma stub_names:
  "run_tesseract stub_ocr [crop_rows (one_line_frame 50) 5 45] = Inr {''iron sword'', ''crackd sheild'', ''xyzzy''}"
  by code_simp

lemma stub_match:
  "match_items [''crackd sheild'', ''iron sword'', ''xyzzy''] stub_items =
     ({''iron sword'', ''cracked shield''}, [Info ''crackd sheild'' ''cracked shield'', Warning ''xyzzy''])"
  by code_simp

lemma stub_sorted_names:
  "sorted_list_of_set {''iron sword'', ''crackd sheild'', ''xyzzy''} = [''crackd sheild'', ''iron sword'', ''xyzzy'']"
  by code_simp

lemma stub_sorted_db: "sorted_list_of_set (set stub_items) = [''cracked shield'', ''iron sword'', ''steel shield'']"
  by code_simp

lemma stub_scan:
  "scan_catalog sorted_list_of_set sorted_list_of_set sorted_list_of_set gray_input stub_ocr stub_items
     (Some [wide_image]) = Inr [''cracked shield'', ''iron sword'']"
proof -
  have "match_items [''crackd sheild'', ''iron sword'', ''xyzzy''] [''cracked shield'', ''iron sword'', ''steel shield'']
      = match_items [''crackd sheild'', ''iron sword'', ''xyzzy''] stub_items"
    by (simp add: match_items_def stub_items_def get_close_matches_order[of "[''cracked shield'', ''iron sword'', ''steel shield'']" stub_items] insert_commute)
  then show ?thesis
    by (simp add: scan_catalog_def parse_video_one_wide stub_names stub_sorted_names stub_sorted_db stub_match
        insert_commute)
qed

theorem results_in_vocabulary_witness:
  "iteration_order (sorted_list_of_set :: string set \<Rightarrow> string list) \<and>
   scan_catalog sorted_list_of_set sorted_list_of_set sorted_list_of_set gray_input stub_ocr stub_items
     (Some [wide_image]) = Inr [''cracked shield'', ''iron sword''] \<and>
   set [''cracked shield'', ''iron sword''] \<subseteq> set stub_items \<and>
   fst (match_items [''crackd sheild'', ''iron sword'', ''xyzzy''] stub_items) \<subseteq> set stub_items"
  using results_in_vocabulary[of "[''crackd sheild'', ''iron sword'', ''xyzzy'']" stub_items
      sorted_list_of_set sorted_list_of_set sorted_list_of_set gray_input stub_ocr stub_items
      "Some [wide_image]" "[''cracked shield'', ''iron sword'']"]
    stub_scan iteration_order_sorted_list
  by simp

theorem scan_catalog_sorted_witness:
  "iteration_order (sorted_list_of_set :: string set \<Rightarrow> string list) \<and>
   scan_catalog sorted_list_of_set sorted_list_of_set sorted_list_of_set gray_input stub_ocr stub_items
     (Some [wide_image]) = Inr [''cracked shield'', ''iron sword''] \<and>
   sorted [''cracked shield'', ''iron sword''] \<and> distinct [''cracked shield'', ''iron sword''] \<and>
   scan_catalog (\<lambda>S. rev (sorted_list_of_set S)) (\<lambda>S. rev (sorted_list_of_set S))
     (\<lambda>S. rev (sorted_list_of_set S)) gray_input stub_ocr stub_items
     (Some [wide_image]) = Inr [''cracked shield'', ''iron sword'']"
proof -
  note t = scan_catalog_sorted[OF iteration_order_sorted_list stub_scan]
  from t have "sorted [''cracked shield'', ''iron sword'']" "distinct [''cracked shield'', ''iron sword'']"
    by simp_all
  moreover from t iteration_order_sorted_list iteration_order_rev
  have "scan_catalog (\<lambda>S. rev (sorted_list_of_set S)) (\<lambda>S. rev (sorted_list_of_set S))
     (\<lambda>S. rev (sorted_list_of_set S)) gray_input stub_ocr stub_items
     (Some [wide_image]) = Inr [''cracked shield'', ''iron sword'']"
    by blast
  ultimately show ?thesis using iteration_order_sorted_list stub_scan by simp
qed

theorem match_items_order_independent_witness:
  "set [''crackd sheild'', ''iron sword'', ''xyzzy''] = set [''xyzzy'', ''iron sword'', ''crackd sheild'', ''xyzzy''] \<and>
   fst (match_items [''xyzzy'', ''iron sword'', ''crackd sheild'', ''xyzzy''] stub_items)
     = {''iron sword'', ''cracked shield''} \<and>
   set stub_items = set [''steel shield'', ''cracked shield'', ''iron sword''] \<and>
   match_items [''crackd sheild'', ''iron sword'', ''xyzzy''] [''steel shield'', ''cracked shield'', ''iron sword'']
     = ({''iron sword'', ''cracked shield''}, [Info ''crackd sheild'' ''cracked shield'', Warning ''xyzzy''])"
proof -
  have s1: "set [''crackd sheild'', ''iron sword'', ''xyzzy''] = set [''xyzzy'', ''iron sword'', ''crackd sheild'', ''xyzzy'']"
    by auto
  have s2: "set stub_items = set [''steel shield'', ''cracked shield'', ''iron sword'']"
    by (auto simp: stub_items_def)
  note t = match_items_order_independent[of "[''crackd sheild'', ''iron sword'', ''xyzzy'']"
      "[''xyzzy'', ''iron sword'', ''crackd sheild'', ''xyzzy'']" stub_items
      "[''steel shield'', ''cracked shield'', ''iron sword'']"]
  from t s1 have "fst (match_items [''xyzzy'', ''iron sword'', ''crackd sheild'', ''xyzzy''] stub_items)
     = fst (match_items [''crackd sheild'', ''iron sword'', ''xyzzy''] stub_items)"
    by simp
  moreover from t s2 have "match_items [''crackd sheild'', ''iron sword'', ''xyzzy''] [''steel shield'', ''cracked shield'', ''iron sword'']
     = match_items [''crackd sheild'', ''iron sword'', ''xyzzy''] stub_items"
    by simp
  ultimately show ?thesis using s1 s2 by (simp only: stub_match fst_conv simp_thms)
qed

end
